theory Spec2Isabelle
  imports Main "HOL-Library.Char_ord" "HOL-Library.List_Lexorder" "HOL-Library.AList"
    "HOL-Library.Multiset" "HOL-Library.Sublist"
begin

section \<open>JavaScript values used by the version compactor\<close>

text \<open>
  Strings are compared the way JavaScript's default \<open>Array.prototype.sort\<close> compares
  them: lexicographically by code unit. This is the order \<^theory_text>\<open>List_Lexorder\<close> puts on
  \<^typ>\<open>string\<close> over \<^theory_text>\<open>Char_ord\<close>, so \<^const>\<open>sort\<close> is \<open>releases.sort()\<close>.
\<close>

text \<open>What a call can throw.\<close>

datatype error = TypeError | ENOENT | EISDIR | ENOTDIR | YAMLException

text \<open>
  A slot of the array \<open>availableReleases\<close>: a hole left when the array is extended past
  its length, the value \<open>undefined\<close> written by \<open>fill(undefined)\<close>, or a release string.
\<close>

datatype cell = Empty | Undefined | Str string

text \<open>\<open>Boolean(x)\<close> of what reading a slot gives: only a non-empty string is truthy.\<close>

fun truthy :: "cell \<Rightarrow> bool" where
  "truthy (Str s) = (s \<noteq> [])"
| "truthy _ = False"

text \<open>\<open>xs[i]\<close>: reading outside the array gives \<open>undefined\<close>.\<close>

definition js_get :: "cell list \<Rightarrow> nat \<Rightarrow> cell" where
  "js_get xs i = (if i < length xs then xs ! i else Undefined)"

text \<open>\<open>xs[xs.length - 1]\<close>: on the empty array this reads index \<open>-1\<close>, which is \<open>undefined\<close>.\<close>

definition js_last :: "cell list \<Rightarrow> cell" where
  "js_last xs = (if xs = [] then Undefined else last xs)"

text \<open>\<open>xs[i] = v\<close>: writing past the end extends the array and leaves holes.\<close>

definition js_set :: "cell list \<Rightarrow> nat \<Rightarrow> cell \<Rightarrow> cell list" where
  "js_set xs i v =
     (if i < length xs then xs[i := v]
      else xs @ replicate (i - length xs) Empty @ [v])"

text \<open>\<open>xs.indexOf(x)\<close>, with \<open>None\<close> for \<open>-1\<close>.\<close>

fun indexOf :: "'a list \<Rightarrow> 'a \<Rightarrow> nat option" where
  "indexOf [] y = None"
| "indexOf (x # xs) y = (if x = y then Some 0 else map_option Suc (indexOf xs y))"

text \<open>\<open>xs.every(Boolean)\<close> skips holes; \<open>xs.filter(Boolean)\<close> keeps the truthy values.\<close>

definition every_Boolean :: "cell list \<Rightarrow> bool" where
  "every_Boolean xs = list_all (\<lambda>c. c = Empty \<or> truthy c) xs"

fun filter_Boolean :: "cell list \<Rightarrow> string list" where
  "filter_Boolean [] = []"
| "filter_Boolean (Str s # xs) = (if s \<noteq> [] then s # filter_Boolean xs else filter_Boolean xs)"
| "filter_Boolean (_ # xs) = filter_Boolean xs"

text \<open>\<open>[...xs]\<close>: spreading turns holes into \<open>undefined\<close>.\<close>

definition spread :: "cell list \<Rightarrow> cell list" where
  "spread xs = map (\<lambda>c. if c = Empty then Undefined else c) xs"

text \<open>\<open>xs.join(sep)\<close> on strings.\<close>

fun join :: "string \<Rightarrow> string list \<Rightarrow> string" where
  "join sep [] = []"
| "join sep [x] = x"
| "join sep (x # y # ys) = x @ sep @ join sep (y # ys)"

section \<open>checkVersionContinuity\<close>

text \<open>
  The two \<open>while\<close> loops. \<open>shift()\<close> and \<open>pop()\<close> on an empty array change nothing, so
  on an array with no truthy slot the first loop never ends: the value \<open>None\<close>.
\<close>

partial_function (option) strip_leading :: "cell list \<Rightarrow> cell list option" where
  "strip_leading xs = (if \<not> truthy (js_get xs 0) then strip_leading (tl xs) else Some xs)"

partial_function (option) strip_trailing :: "cell list \<Rightarrow> cell list option" where
  "strip_trailing xs = (if \<not> truthy (js_last xs) then strip_trailing (butlast xs) else Some xs)"

declare strip_leading.simps [code]
declare strip_trailing.simps [code]

definition checkVersionContinuity :: "cell list \<Rightarrow> bool option" where
  "checkVersionContinuity versions =
     (case strip_leading (spread versions) of
        None \<Rightarrow> None
      | Some ys \<Rightarrow>
          (case strip_trailing ys of
             None \<Rightarrow> None
           | Some zs \<Rightarrow> Some (every_Boolean zs)))"

section \<open>convertVersionsToFrontmatter\<close>

text \<open>An entry of the external table \<open>allVersions\<close>, with the fields this file reads.\<close>

record docsVersion =
  shortName :: string
  hasNumberedReleases :: bool
  releases :: "string list"
  currentRelease :: string

type_synonym registry = "string \<rightharpoonup> docsVersion"

text \<open>
  A JavaScript object with string keys is an association list in insertion order;
  assigning to a key (\<^const>\<open>AList.update\<close>) replaces the value in place or appends.
\<close>

type_synonym 'v obj = "(string \<times> 'v) list"

text \<open>
  \<open>availableReleases[i] = currentRelease\<close> with \<open>i\<close> the result of \<open>indexOf\<close>: for
  \<open>-1\<close> the assignment creates a property named \<open>-1\<close> and no slot changes. The
  property could only be read back by \<open>xs[xs.length - 1]\<close> on an array of length 0, and
  for such an array \<open>checkVersionContinuity\<close> does not return.
\<close>

fun set_release :: "cell list \<Rightarrow> nat option \<Rightarrow> string \<Rightarrow> cell list" where
  "set_release xs None r = xs"
| "set_release xs (Some i) r = js_set xs i (Str r)"

text \<open>
  The body of \<open>versions.forEach\<close> (lines 136-158) on the pair of objects
  \<open>frontmatterVersions\<close> and \<open>numberedReleases\<close>. A version that is not a key of
  \<open>allVersions\<close> makes \<open>docsVersion\<close> undefined and the property read throws.
\<close>

definition collect_version ::
  "registry \<Rightarrow> string obj \<times> cell list obj \<Rightarrow> string \<Rightarrow> error + (string obj \<times> cell list obj)" where
  "collect_version allVersions acc version =
     (case allVersions version of
        None \<Rightarrow> Inl TypeError
      | Some dv \<Rightarrow>
          if \<not> hasNumberedReleases dv
          then Inr (AList.update (shortName dv) ''*'' (fst acc), snd acc)
          else
            let i = indexOf (sort (releases dv)) (currentRelease dv) in
            (case map_of (snd acc) (shortName dv) of
               None \<Rightarrow>
                 let availableReleases = replicate (length (releases dv)) Undefined in
                 Inr (fst acc,
                      AList.update (shortName dv)
                        (set_release availableReleases i (currentRelease dv)) (snd acc))
             | Some availableReleases \<Rightarrow>
                 Inr (fst acc,
                      AList.update (shortName dv)
                        (set_release availableReleases i (currentRelease dv)) (snd acc))))"

fun collect_versions ::
  "registry \<Rightarrow> string obj \<times> cell list obj \<Rightarrow> string list \<Rightarrow> error + (string obj \<times> cell list obj)" where
  "collect_versions allVersions acc [] = Inr acc"
| "collect_versions allVersions acc (v # vs) =
     (case collect_version allVersions acc v of
        Inl e \<Rightarrow> Inl e
      | Inr acc' \<Rightarrow> collect_versions allVersions acc' vs)"

text \<open>
  The template literal \<open>`<=${xs.filter(Boolean).pop()}`\<close>: \<open>pop()\<close> and \<open>shift()\<close> of an
  empty array give \<open>undefined\<close>, which the template prints as the word.
\<close>

definition pop_str :: "string list \<Rightarrow> string" where
  "pop_str xs = (if xs = [] then ''undefined'' else last xs)"

definition shift_str :: "string list \<Rightarrow> string" where
  "shift_str xs = (if xs = [] then ''undefined'' else hd xs)"

text \<open>The body of the second \<open>forEach\<close> (lines 161-186) for one numbered line.\<close>

definition semVer_of :: "cell list \<Rightarrow> string option" where
  "semVer_of availableReleases =
     (case checkVersionContinuity availableReleases of
        None \<Rightarrow> None
      | Some versionContinuity \<Rightarrow>
          if every_Boolean availableReleases then Some ''*''
          else if \<not> versionContinuity
          then Some (join '' || '' (map (\<lambda>release. ''='' @ release) (filter_Boolean availableReleases)))
          else
            Some (join '' ''
              ((if \<not> truthy (js_last availableReleases)
                then [''<='' @ pop_str (filter_Boolean availableReleases)] else []) @
               (if \<not> truthy (js_get availableReleases 0)
                then [''>='' @ shift_str (filter_Boolean availableReleases)] else []))))"

fun semVer_all :: "string obj \<Rightarrow> cell list obj \<Rightarrow> string obj option" where
  "semVer_all fm [] = Some fm"
| "semVer_all fm ((key, availableReleases) # rest) =
     (case semVer_of availableReleases of
        None \<Rightarrow> None
      | Some semVer \<Rightarrow> semVer_all (AList.update key semVer fm) rest)"

text \<open>
  The result object is built by inserting the keys in sorted order (lines 187-193).
  \<open>None\<close> is a call that never returns, \<open>Some (Inl e)\<close> one that throws \<open>e\<close>.
\<close>

definition sorted_obj :: "string obj \<Rightarrow> string obj" where
  "sorted_obj fm = map (\<lambda>key. (key, the (map_of fm key))) (sort (map fst fm))"

definition convertVersionsToFrontmatter :: "registry \<Rightarrow> string list \<Rightarrow> (error + string obj) option" where
  "convertVersionsToFrontmatter allVersions versions =
     (case collect_versions allVersions ([], []) versions of
        Inl e \<Rightarrow> Some (Inl e)
      | Inr (frontmatterVersions, numberedReleases) \<Rightarrow>
          (case semVer_all frontmatterVersions numberedReleases of
             None \<Rightarrow> None
           | Some fm \<Rightarrow> Some (Inr (sorted_obj fm))))"

section \<open>Notions used to state the properties of the compactor\<close>

text \<open>
  The array the first loop builds for a line whose sorted release list is \<open>rs\<close> when the
  releases in \<open>P\<close> are present: the release string at each present position,
  \<open>undefined\<close> elsewhere.
\<close>

definition presence :: "string list \<Rightarrow> string set \<Rightarrow> cell list" where
  "presence rs P = map (\<lambda>r. if r \<in> P then Str r else Undefined) rs"

text \<open>
  What the data model asks of the external table for the versions of a version set: every
  version resolves; a numbered entry lists its own release, lists no release twice and no
  empty string (the code takes an empty string for a hole); two entries of one line agree
  on whether the line is numbered and on its releases.
\<close>

definition version_ok :: "docsVersion \<Rightarrow> bool" where
  "version_ok dv \<longleftrightarrow>
     (hasNumberedReleases dv \<longrightarrow>
        currentRelease dv \<in> set (releases dv) \<and> distinct (releases dv) \<and> [] \<notin> set (releases dv))"

definition same_line :: "docsVersion \<Rightarrow> docsVersion \<Rightarrow> bool" where
  "same_line dv dw \<longleftrightarrow>
     (shortName dv = shortName dw \<longrightarrow>
        hasNumberedReleases dv = hasNumberedReleases dw \<and>
        (hasNumberedReleases dv \<longrightarrow> sort (releases dv) = sort (releases dw)))"

definition well_formed :: "registry \<Rightarrow> string list \<Rightarrow> bool" where
  "well_formed allVersions versions \<longleftrightarrow>
     (\<forall>v\<in>set versions. \<exists>dv. allVersions v = Some dv \<and> version_ok dv) \<and>
     (\<forall>v\<in>set versions. \<forall>w\<in>set versions. \<forall>dv dw.
        allVersions v = Some dv \<longrightarrow> allVersions w = Some dw \<longrightarrow> same_line dv dw)"

text \<open>The releases of the numbered line \<open>key\<close> that a version list mentions.\<close>

definition present_releases :: "registry \<Rightarrow> string list \<Rightarrow> string \<Rightarrow> string list" where
  "present_releases allVersions versions key =
     map currentRelease
       (filter (\<lambda>dv. shortName dv = key \<and> hasNumberedReleases dv)
          (List.map_filter allVersions versions))"

text \<open>
  The state of the two objects after the first loop has processed the versions \<open>ps\<close>.
\<close>

definition collected :: "registry \<Rightarrow> string list \<Rightarrow> string obj \<times> cell list obj \<Rightarrow> bool" where
  "collected reg ps acc \<longleftrightarrow>
     distinct (map fst (fst acc)) \<and> distinct (map fst (snd acc)) \<and>
     (\<forall>k. map_of (fst acc) k =
        (if \<exists>v\<in>set ps. \<exists>dv. reg v = Some dv \<and> shortName dv = k \<and> \<not> hasNumberedReleases dv
         then Some ''*'' else None)) \<and>
     (\<forall>k. k \<in> fst ` set (snd acc) \<longrightarrow>
        (\<exists>v\<in>set ps. \<exists>dv. reg v = Some dv \<and> shortName dv = k \<and> hasNumberedReleases dv)) \<and>
     (\<forall>v\<in>set ps. \<forall>dv. reg v = Some dv \<longrightarrow> hasNumberedReleases dv \<longrightarrow>
        map_of (snd acc) (shortName dv) =
          Some (presence (sort (releases dv)) (set (present_releases reg ps (shortName dv)))))"

text \<open>The lines a version list touches.\<close>

definition line_keys :: "registry \<Rightarrow> string list \<Rightarrow> string set" where
  "line_keys reg vs = {shortName dv |v dv. v \<in> set vs \<and> reg v = Some dv}"

subsection \<open>Evaluating a range expression\<close>

text \<open>
  Modelled from the spec: the evaluator of range expressions is not part of the source
  file. The spec's data model gives the three shapes and their meaning against the
  line's ordered release list: \<open>*\<close> selects every release; a space-joined list of bounds
  selects the releases every bound admits, \<open><=v\<close> admitting the releases up to the
  position of \<open>v\<close> and \<open>>=v\<close> those from it on; a \<open>||\<close>-joined list of \<open>=v\<close> terms selects
  the releases some term names. An expression is read as space-separated tokens,
  grouped into alternatives at the token \<open>||\<close>.
\<close>

fun split_on :: "'a \<Rightarrow> 'a list \<Rightarrow> 'a list list" where
  "split_on sep [] = [[]]"
| "split_on sep (x # xs) =
     (if x = sep then [] # split_on sep xs
      else (case split_on sep xs of [] \<Rightarrow> [[x]] | w # ws \<Rightarrow> (x # w) # ws))"

text \<open>
  Modelled from the spec: the releases of the ordered list \<open>rs\<close> that one term admits.
\<close>

definition comparator :: "string list \<Rightarrow> string \<Rightarrow> string list" where
  "comparator rs tok =
     (if tok = ''*'' then rs
      else if take 2 tok = ''<='' then
        (if drop 2 tok \<in> set rs then takeWhile (\<lambda>r. r \<noteq> drop 2 tok) rs @ [drop 2 tok] else [])
      else if take 2 tok = ''>='' then dropWhile (\<lambda>r. r \<noteq> drop 2 tok) rs
      else if take 1 tok = ''='' then filter (\<lambda>r. r = drop 1 tok) rs
      else [])"

text \<open>
  Modelled from the spec: the releases an expression selects, those that every term of
  some alternative admits.
\<close>

definition evaluate :: "string list \<Rightarrow> string \<Rightarrow> string list" where
  "evaluate rs expr =
     filter (\<lambda>r. list_ex (\<lambda>clause. list_all (\<lambda>tok. r \<in> set (comparator rs tok)) clause)
                    (split_on ''||'' (split_on (CHR '' '') expr))) rs"

text \<open>The tokens of a \<open>||\<close>-joined list.\<close>

fun or_tokens :: "string list \<Rightarrow> string list" where
  "or_tokens [] = []"
| "or_tokens [x] = [x]"
| "or_tokens (x # y # ys) = x # ''||'' # or_tokens (y # ys)"

subsection \<open>Example tables\<close>

definition ghes :: "string \<Rightarrow> docsVersion" where
  "ghes r = \<lparr>shortName = ''ghes'', hasNumberedReleases = True,
             releases = [''3.3'', ''3.4'', ''3.5''], currentRelease = r\<rparr>"

definition example_allVersions :: registry where
  "example_allVersions =
     [''free-pro-team@latest'' \<mapsto>
        \<lparr>shortName = ''fpt'', hasNumberedReleases = False, releases = [], currentRelease = ''''\<rparr>,
      ''enterprise-server@3.3'' \<mapsto> ghes ''3.3'',
      ''enterprise-server@3.4'' \<mapsto> ghes ''3.4'',
      ''enterprise-server@3.5'' \<mapsto> ghes ''3.5'']"

definition single_allVersions :: registry where
  "single_allVersions =
     [''enterprise-server@3.3'' \<mapsto>
        \<lparr>shortName = ''ghes'', hasNumberedReleases = True,
         releases = [''3.3''], currentRelease = ''3.3''\<rparr>]"

text \<open>A table whose entry names a release that its release list lacks.\<close>

definition unlisted_allVersions :: registry where
  "unlisted_allVersions =
     [''enterprise-server@3.6'' \<mapsto>
        \<lparr>shortName = ''ghes'', hasNumberedReleases = True,
         releases = [''3.3'', ''3.4''], currentRelease = ''3.6''\<rparr>]"

text \<open>A line whose releases reach a two-digit number, listed in release order.\<close>

definition ghes_recent :: "string \<Rightarrow> docsVersion" where
  "ghes_recent r = \<lparr>shortName = ''ghes'', hasNumberedReleases = True,
                    releases = [''3.8'', ''3.9'', ''3.10''], currentRelease = r\<rparr>"

definition recent_allVersions :: registry where
  "recent_allVersions =
     [''enterprise-server@3.8'' \<mapsto> ghes_recent ''3.8'',
      ''enterprise-server@3.9'' \<mapsto> ghes_recent ''3.9'',
      ''enterprise-server@3.10'' \<mapsto> ghes_recent ''3.10'']"

section \<open>getDataFrontmatter\<close>

text \<open>
  A schema file as the loop body sees it: the version name that \<open>getDocsVersion\<close> gives
  for its directory, and the parsed JSON as the keys that \<open>Object.keys\<close> lists, each
  category with its subcategories. Listing the directory, parsing and \<open>getDocsVersion\<close>
  are outside the file. Keys are own properties: no category or subcategory is named
  like a member of \<open>Object.prototype\<close>.
\<close>

type_synonym schema_file = "string \<times> (string \<times> string list) list"

text \<open>\<open>restVersions\<close>: category, then subcategory, then the array \<open>versions\<close>.\<close>

type_synonym catalog = "string list obj obj"

text \<open>The body of the inner \<open>forEach\<close> (lines 231-240).\<close>

definition add_subcategory :: "string \<Rightarrow> string \<Rightarrow> catalog \<Rightarrow> string \<Rightarrow> catalog" where
  "add_subcategory docsVersionName category restVersions subcategory =
     (let subs = (case map_of restVersions category of None \<Rightarrow> [] | Some s \<Rightarrow> s) in
      AList.update category
        (case map_of subs subcategory of
           None \<Rightarrow> AList.update subcategory [docsVersionName] subs
         | Some versions \<Rightarrow>
             if docsVersionName \<in> set versions then subs
             else AList.update subcategory (versions @ [docsVersionName]) subs)
        restVersions)"

definition add_category :: "string \<Rightarrow> catalog \<Rightarrow> string \<times> string list \<Rightarrow> catalog" where
  "add_category docsVersionName restVersions entry =
     foldl (add_subcategory docsVersionName (fst entry)) restVersions (snd entry)"

definition add_file :: "catalog \<Rightarrow> schema_file \<Rightarrow> catalog" where
  "add_file restVersions file = foldl (add_category (fst file)) restVersions (snd file)"

definition getDataFrontmatter :: "schema_file list \<Rightarrow> catalog" where
  "getDataFrontmatter fileList = foldl add_file [] fileList"

text \<open>\<open>restVersions[category][subcategory].versions\<close>, empty when the entry is missing.\<close>

definition versions_of :: "catalog \<Rightarrow> string \<Rightarrow> string \<Rightarrow> string list" where
  "versions_of restVersions category subcategory =
     (case map_of restVersions category of
        None \<Rightarrow> []
      | Some subs \<Rightarrow> (case map_of subs subcategory of None \<Rightarrow> [] | Some versions \<Rightarrow> versions))"

text \<open>The subcategories \<open>restVersions[category]\<close> has, none when the category is missing.\<close>

definition subcategories_of :: "catalog \<Rightarrow> string \<Rightarrow> string set" where
  "subcategories_of restVersions category =
     (case map_of restVersions category of None \<Rightarrow> {} | Some subs \<Rightarrow> fst ` set subs)"

text \<open>The versions of the files that list a subcategory under a category.\<close>

definition listed_in :: "schema_file list \<Rightarrow> string \<Rightarrow> string \<Rightarrow> string set" where
  "listed_in fileList category subcategory =
     {fst f |f e. f \<in> set fileList \<and> e \<in> set (snd f) \<and> fst e = category \<and> subcategory \<in> set (snd e)}"

text \<open>Three schema files.\<close>

definition example_files :: "schema_file list" where
  "example_files =
     [(''free-pro-team@latest'', [(''actions'', [''artifacts'', ''cache''])]),
      (''enterprise-server@3.4'', [(''actions'', [''artifacts''])]),
      (''enterprise-server@3.3'', [(''actions'', [''artifacts'']), (''apps'', [''apps''])])]"

section \<open>The documentation tree\<close>

text \<open>
  A path is the list of its components; the paths of the program come from \<open>path.join\<close>
  and \<open>walk\<close>, which normalise them, and category and subcategory names are taken to be
  single components. The empty list is the working directory.
\<close>

type_synonym path = "string list"

text \<open>\<open>path.dirname\<close> and \<open>path.basename\<close>.\<close>

definition dirname :: "path \<Rightarrow> path" where
  "dirname p = butlast p"

definition basename :: "path \<Rightarrow> string" where
  "basename p = (if p = [] then ''.'' else last p)"

text \<open>\<open>path.basename(p, ext)\<close>: the extension is dropped unless it is the whole name.\<close>

definition basename_ext :: "path \<Rightarrow> string \<Rightarrow> string" where
  "basename_ext p ext =
     (let b = basename p in
      if length ext < length b \<and> drop (length b - length ext) b = ext
      then take (length b - length ext) b else b)"

text \<open>The path as the string the program holds, and \<open>String.prototype.includes\<close>.\<close>

definition path_text :: "path \<Rightarrow> string" where
  "path_text p = join ''/'' p"

fun js_includes :: "string \<Rightarrow> string \<Rightarrow> bool" where
  "js_includes [] sub = (sub = [])"
| "js_includes (c # cs) sub = (take (length sub) (c # cs) = sub \<or> js_includes cs sub)"

text \<open>
  The values held in frontmatter, and what \<open>gray-matter\<close> does, taken as a parameter:
  \<open>matter\<close> parses a text into \<open>data\<close> and \<open>content\<close> (\<open>None\<close> when it throws),
  \<open>stringify\<close> writes them out. Both are functions of their arguments here; the cache
  the library keeps of the texts it has parsed is added where the whole run is described.
\<close>

datatype jsval = JUndefined | JNull | JStr string | JArr "jsval list" | JObj "(string \<times> jsval) list"

type_synonym frontmatter = "jsval obj"

record 't gray_matter =
  matter :: "'t \<Rightarrow> (frontmatter \<times> string) option"
  stringify :: "string \<Rightarrow> frontmatter \<Rightarrow> 't"

text \<open>\<open>o.k\<close> on an object.\<close>

definition js_prop :: "frontmatter \<Rightarrow> string \<Rightarrow> jsval" where
  "js_prop o' k = (case map_of o' k of None \<Rightarrow> JUndefined | Some v \<Rightarrow> v)"

text \<open>An object literal: later keys replace earlier ones in place.\<close>

definition obj_literal :: "(string \<times> jsval) list \<Rightarrow> frontmatter" where
  "obj_literal kvs = foldl (\<lambda>o' kv. AList.update (fst kv) (snd kv) o') [] kvs"

text \<open>The files with their texts and the directories, other than the working directory.\<close>

record 't fs =
  files :: "(path \<times> 't) list"
  dirs :: "path list"

text \<open>
  The calls of \<open>fs\<close> and \<open>fs/promises\<close> that the program makes, each with the error
  it rejects with. A path that is listed as a file is read and written as a file.
\<close>

definition is_dir :: "'t fs \<Rightarrow> path \<Rightarrow> bool" where
  "is_dir s p \<longleftrightarrow> p = [] \<or> p \<in> set (dirs s)"

definition existsSync :: "'t fs \<Rightarrow> path \<Rightarrow> bool" where
  "existsSync s p \<longleftrightarrow> map_of (files s) p \<noteq> None \<or> is_dir s p"

definition readFile :: "'t fs \<Rightarrow> path \<Rightarrow> error + 't" where
  "readFile s p =
     (case map_of (files s) p of
        Some t \<Rightarrow> Inr t
      | None \<Rightarrow> Inl (if is_dir s p then EISDIR else ENOENT))"

definition writeFile :: "'t fs \<Rightarrow> path \<Rightarrow> 't \<Rightarrow> error + 't fs" where
  "writeFile s p t =
     (if map_of (files s) p \<noteq> None then Inr (s\<lparr>files := AList.update p t (files s)\<rparr>)
      else if is_dir s p then Inl EISDIR
      else if \<not> is_dir s (dirname p)
      then Inl (if map_of (files s) (dirname p) = None then ENOENT else ENOTDIR)
      else Inr (s\<lparr>files := AList.update p t (files s)\<rparr>))"

definition unlink :: "'t fs \<Rightarrow> path \<Rightarrow> error + 't fs" where
  "unlink s p =
     (case map_of (files s) p of
        None \<Rightarrow> Inl (if is_dir s p then EISDIR else ENOENT)
      | Some t \<Rightarrow> Inr (s\<lparr>files := AList.delete p (files s)\<rparr>))"

definition readdir :: "'t fs \<Rightarrow> path \<Rightarrow> error + string list" where
  "readdir s d =
     (if is_dir s d
      then Inr (map last (filter (\<lambda>p. p \<noteq> [] \<and> butlast p = d) (map fst (files s) @ dirs s)))
      else Inl (if map_of (files s) d = None then ENOENT else ENOTDIR))"

text \<open>\<open>rimraf.sync(d)\<close> removes \<open>d\<close> and everything below it.\<close>

definition rimraf :: "'t fs \<Rightarrow> path \<Rightarrow> 't fs" where
  "rimraf s d =
     s\<lparr>files := filter (\<lambda>e. \<not> prefix d (fst e)) (files s),
       dirs := filter (\<lambda>p. \<not> prefix d p) (dirs s)\<rparr>"

text \<open>\<open>mkdirp(d)\<close> creates \<open>d\<close> and the ancestors it lacks.\<close>

definition mkdirp :: "'t fs \<Rightarrow> path \<Rightarrow> error + 't fs" where
  "mkdirp s d =
     (if \<exists>q\<in>set (prefixes d). map_of (files s) q \<noteq> None then Inl ENOTDIR
      else Inr (s\<lparr>dirs := dirs s @ filter (\<lambda>q. \<not> is_dir s q) (prefixes d)\<rparr>))"

text \<open>
  \<open>walk(root, {includeBasePath: true, directories: false})\<close>: the files below \<open>root\<close>,
  in the order of their paths.
\<close>

definition walk :: "'t fs \<Rightarrow> path \<Rightarrow> error + path list" where
  "walk s root =
     (if is_dir s root then Inr (sort (filter (prefix root) (map fst (files s))))
      else Inl (if map_of (files s) root = None then ENOENT else ENOTDIR))"

section \<open>updateIndexFile\<close>

datatype changeType = Add | Remove

text \<open>\<open>xs.splice(index, 1)\<close> with \<open>index\<close> the result of \<open>indexOf\<close>: a start of \<open>-1\<close>
  counts from the end of the array.\<close>

fun splice1 :: "'a list \<Rightarrow> nat option \<Rightarrow> 'a list" where
  "splice1 xs None = butlast xs"
| "splice1 xs (Some i) = take i xs @ drop (Suc i) xs"

text \<open>
  Lines 101-107 on \<open>data\<close>. \<open>data.children\<close> has to be an array: on anything else
  \<open>indexOf\<close>, \<open>splice\<close> or \<open>push\<close> is missing and the call throws.
\<close>

definition change_children :: "frontmatter \<Rightarrow> changeType \<Rightarrow> string \<Rightarrow> error + frontmatter" where
  "change_children data change filename =
     (case map_of data ''children'' of
        Some (JArr children) \<Rightarrow>
          (case change of
             Remove \<Rightarrow>
               Inr (AList.update ''children''
                 (JArr (splice1 children (indexOf children (JStr (''/'' @ filename))))) data)
           | Add \<Rightarrow>
               Inr (AList.update ''children'' (JArr (children @ [JStr (''/'' @ filename)])) data))
      | _ \<Rightarrow> Inl TypeError)"

definition newIndexFile :: "frontmatter \<Rightarrow> string \<Rightarrow> jsval \<Rightarrow> frontmatter \<times> string" where
  "newIndexFile frontmatterDefaults indexDirectory versions =
     (obj_literal
        ([(''title'', JStr indexDirectory), (''shortTitle'', JStr indexDirectory),
          (''intro'', JStr ''''), (''versions'', versions)] @
         frontmatterDefaults @ [(''children'', JArr [])]),
      '''')"

definition updateIndexFile ::
  "'t gray_matter \<Rightarrow> frontmatter \<Rightarrow> 't fs \<Rightarrow> path \<Rightarrow> changeType \<Rightarrow> jsval \<Rightarrow> error + 't fs" where
  "updateIndexFile gm frontmatterDefaults s file change versions =
     (let filename = basename_ext file ''.md'';
          indexDirectory = basename (dirname file);
          indexFilePath = dirname file @ [''index.md'']
      in
      case (if existsSync s indexFilePath
            then (case readFile s indexFilePath of
                    Inl e \<Rightarrow> Inl e
                  | Inr t \<Rightarrow> (case matter gm t of None \<Rightarrow> Inl YAMLException | Some p \<Rightarrow> Inr p))
            else Inr (newIndexFile frontmatterDefaults indexDirectory versions)) of
        Inl e \<Rightarrow> Inl e
      | Inr (data, content) \<Rightarrow>
          (case change_children data change filename of
             Inl e \<Rightarrow> Inl e
           | Inr data' \<Rightarrow> writeFile s indexFilePath (stringify gm content data')))"

section \<open>getMarkdownFrontmatter\<close>

definition versions_value :: "string obj \<Rightarrow> jsval" where
  "versions_value vs = JObj (map (\<lambda>kv. (fst kv, JStr (snd kv))) vs)"

definition page_frontmatter :: "frontmatter \<Rightarrow> string \<Rightarrow> string obj \<Rightarrow> frontmatter" where
  "page_frontmatter frontmatterDefaults name vs =
     obj_literal
       ([(''title'', JStr name), (''shortTitle'', JStr name), (''intro'', JStr ''''),
         (''versions'', versions_value vs)] @ frontmatterDefaults)"

text \<open>\<open>markdownUpdates\<close>: the desired pages by path, in the order of insertion.\<close>

type_synonym page_map = "(path \<times> frontmatter) list"

text \<open>
  The inner loop over the subcategories of a category with several of them. The result
  is \<open>None\<close> when a conversion never returns and \<open>Some (Inl e)\<close> when it throws.
\<close>

fun subcategory_pages ::
  "registry \<Rightarrow> frontmatter \<Rightarrow> string \<Rightarrow> page_map \<Rightarrow> string list obj \<Rightarrow>
   (error + page_map) option" where
  "subcategory_pages allVersions dflt category markdownUpdates [] = Some (Inr markdownUpdates)"
| "subcategory_pages allVersions dflt category markdownUpdates ((subcategory, versions) # rest) =
     (case convertVersionsToFrontmatter allVersions versions of
        None \<Rightarrow> None
      | Some (Inl e) \<Rightarrow> Some (Inl e)
      | Some (Inr vs) \<Rightarrow>
          subcategory_pages allVersions dflt category
            (AList.update [''content'', ''rest'', category, subcategory @ ''.md'']
               (page_frontmatter dflt subcategory vs) markdownUpdates) rest)"

fun category_pages ::
  "registry \<Rightarrow> frontmatter \<Rightarrow> page_map \<Rightarrow> catalog \<Rightarrow> (error + page_map) option" where
  "category_pages allVersions dflt markdownUpdates [] = Some (Inr markdownUpdates)"
| "category_pages allVersions dflt markdownUpdates ((category, subcategories) # rest) =
     (case subcategories of
        [(subcategory, versions)] \<Rightarrow>
          (case convertVersionsToFrontmatter allVersions versions of
             None \<Rightarrow> None
           | Some (Inl e) \<Rightarrow> Some (Inl e)
           | Some (Inr vs) \<Rightarrow>
               category_pages allVersions dflt
                 (AList.update [''content'', ''rest'', category @ ''.md'']
                    (page_frontmatter dflt category vs) markdownUpdates) rest)
      | _ \<Rightarrow>
          (case subcategory_pages allVersions dflt category markdownUpdates subcategories of
             None \<Rightarrow> None
           | Some (Inl e) \<Rightarrow> Some (Inl e)
           | Some (Inr markdownUpdates') \<Rightarrow>
               category_pages allVersions dflt markdownUpdates' rest))"

definition getMarkdownFrontmatter ::
  "registry \<Rightarrow> frontmatter \<Rightarrow> catalog \<Rightarrow> (error + page_map) option" where
  "getMarkdownFrontmatter allVersions dflt versions = category_pages allVersions dflt [] versions"

section \<open>The process that runs updateMarkdownFiles\<close>

text \<open>
  \<open>gray-matter\<close> keeps the object it returned for every text it has parsed
  (\<open>matter.cache\<close>) and answers a text it has seen before with the same \<open>data\<close>; the
  program changes \<open>data\<close> in place (lines 63, 103 and 106), so a later parse of the same
  text sees the change. \<open>memo\<close> is that cache, a text with the data and content it now
  stands for.
\<close>

type_synonym 't memo = "('t \<times> frontmatter \<times> string) list"

definition matter_cached :: "'t gray_matter \<Rightarrow> 't memo \<Rightarrow> 't \<Rightarrow> (frontmatter \<times> string) option" where
  "matter_cached gm cache t =
     (case map_of cache t of Some parsed \<Rightarrow> Some parsed | None \<Rightarrow> matter gm t)"

text \<open>
  A call of \<open>updateIndexFile(file, changeType, versions)\<close> that nobody waits for goes on
  while the caller continues. It stops twice, at its \<open>await readFile\<close> (line 98) and at
  its \<open>await writeFile\<close> (line 108), the latter with the text to write already computed.
\<close>

datatype 't task = Reading path changeType | Writing path 't

text \<open>
  The state of the process: the tree, the cache of \<open>gray-matter\<close>, the index updates
  that were started and have not finished, and what the event loop will do at the
  waits to come: for each wait, which of the running updates take a step, by their
  positions in the list. The schedule is an argument of the run; a property of the
  program holds for every schedule.
\<close>

record 't process =
  tree :: "'t fs"
  memo :: "'t memo"
  running :: "'t task list"
  turns :: "nat list list"

text \<open>
  One step of the running update at position \<open>i\<close>. A reading update gets the text of
  the index page, parses it and changes the children (lines 98-107); a writing update
  writes its text (line 108) and is done. An update that is rejected is done as well:
  its promise was dropped at the call, so nothing in the run learns of the error.
\<close>

definition task_step :: "'t gray_matter \<Rightarrow> 't process \<Rightarrow> nat \<Rightarrow> 't process" where
  "task_step gm p i =
     (if length (running p) \<le> i then p
      else
        (let others = take i (running p) @ drop (Suc i) (running p) in
         case running p ! i of
           Reading file change \<Rightarrow>
             (case readFile (tree p) (dirname file @ [''index.md'']) of
                Inl e \<Rightarrow> p\<lparr>running := others\<rparr>
              | Inr t \<Rightarrow>
                  (case matter_cached gm (memo p) t of
                     None \<Rightarrow> p\<lparr>running := others\<rparr>
                   | Some (data, content) \<Rightarrow>
                       (case change_children data change (basename_ext file ''.md'') of
                          Inl e \<Rightarrow>
                            p\<lparr>memo := AList.update t (data, content) (memo p), running := others\<rparr>
                        | Inr data' \<Rightarrow>
                            p\<lparr>memo := AList.update t (data', content) (memo p),
                              running := (running p)[i := Writing file (stringify gm content data')]\<rparr>)))
         | Writing file text \<Rightarrow>
             (case writeFile (tree p) (dirname file @ [''index.md'']) text of
                Inl e \<Rightarrow> p\<lparr>running := others\<rparr>
              | Inr s' \<Rightarrow> p\<lparr>tree := s', running := others\<rparr>)))"

text \<open>
  The call itself runs the function up to its first \<open>await\<close>: with an index page in
  place that is the read; without one the placeholder is filled in and the write is
  reached at once.
\<close>

definition start_updateIndexFile ::
  "'t gray_matter \<Rightarrow> frontmatter \<Rightarrow> 't process \<Rightarrow> path \<Rightarrow> changeType \<Rightarrow> jsval \<Rightarrow> 't process" where
  "start_updateIndexFile gm frontmatterDefaults p file change versions =
     (if existsSync (tree p) (dirname file @ [''index.md''])
      then p\<lparr>running := running p @ [Reading file change]\<rparr>
      else
        (case newIndexFile frontmatterDefaults (basename (dirname file)) versions of
           (data, content) \<Rightarrow>
             (case change_children data change (basename_ext file ''.md'') of
                Inl e \<Rightarrow> p
              | Inr data' \<Rightarrow>
                  p\<lparr>running := running p @ [Writing file (stringify gm content data')]\<rparr>)))"

text \<open>
  While the caller waits for an operation of its own, the event loop lets the running
  updates take the steps of the next turn.
\<close>

definition pause :: "'t gray_matter \<Rightarrow> 't process \<Rightarrow> 't process" where
  "pause gm p =
     (case turns p of
        [] \<Rightarrow> p
      | steps # rest \<Rightarrow> (foldl (task_step gm) p steps)\<lparr>turns := rest\<rparr>)"

text \<open>
  \<open>await op\<close> for an operation that changes the tree, and \<open>await readFile(file)\<close>: the
  running updates may take steps before the operation takes effect and again before
  the caller resumes.
\<close>

definition awaited ::
  "'t gray_matter \<Rightarrow> ('t fs \<Rightarrow> error + 't fs) \<Rightarrow> 't process \<Rightarrow> 't process \<times> error option" where
  "awaited gm op p =
     (let p1 = pause gm p in
      case op (tree p1) of
        Inl e \<Rightarrow> (pause gm p1, Some e)
      | Inr s' \<Rightarrow> (pause gm (p1\<lparr>tree := s'\<rparr>), None))"

definition awaited_read :: "'t gray_matter \<Rightarrow> 't process \<Rightarrow> path \<Rightarrow> (error + 't) \<times> 't process" where
  "awaited_read gm p file = (let p1 = pause gm p in (readFile (tree p1) file, pause gm p1))"

text \<open>
  \<open>await updateIndexFile(...)\<close>, as in the first loop, where no other update is running:
  the call runs from start to end, with \<open>matter\<close> answering from the cache, and leaves
  the changed \<open>data\<close> in the cache.
\<close>

definition memo_updateIndexFile ::
  "'t gray_matter \<Rightarrow> 't fs \<Rightarrow> 't memo \<Rightarrow> path \<Rightarrow> changeType \<Rightarrow> 't memo" where
  "memo_updateIndexFile gm s cache file change =
     (case readFile s (dirname file @ [''index.md'']) of
        Inl e \<Rightarrow> cache
      | Inr t \<Rightarrow>
          (case matter_cached gm cache t of
             None \<Rightarrow> cache
           | Some (data, content) \<Rightarrow>
               (case change_children data change (basename_ext file ''.md'') of
                  Inl e \<Rightarrow> AList.update t (data, content) cache
                | Inr data' \<Rightarrow> AList.update t (data', content) cache)))"

definition await_updateIndexFile ::
  "'t gray_matter \<Rightarrow> frontmatter \<Rightarrow> 't process \<Rightarrow> path \<Rightarrow> changeType \<Rightarrow> jsval \<Rightarrow>
   't process \<times> error option" where
  "await_updateIndexFile gm frontmatterDefaults p file change versions =
     (case updateIndexFile (gm\<lparr>matter := matter_cached gm (memo p)\<rparr>) frontmatterDefaults
             (tree p) file change versions of
        Inl e \<Rightarrow> (p, Some e)
      | Inr s' \<Rightarrow>
          (p\<lparr>tree := s', memo := memo_updateIndexFile gm (tree p) (memo p) file change\<rparr>, None))"

section \<open>updateMarkdownFiles\<close>

text \<open>
  Lines 22-36: the files under \<open>content/rest\<close> whose path contains neither \<open>index.md\<close> nor
  \<open>README.md\<close> and whose frontmatter says \<open>autogenerated: rest\<close>. The tree is not
  changed here; a file that cannot be read or parsed rejects the whole \<open>Promise.all\<close>.
\<close>

fun autogenerated_of ::
  "'t gray_matter \<Rightarrow> 't fs \<Rightarrow> 't memo \<Rightarrow> path list \<Rightarrow> error + path list \<times> 't memo" where
  "autogenerated_of gm s cache [] = Inr ([], cache)"
| "autogenerated_of gm s cache (file # rest) =
     (case readFile s file of
        Inl e \<Rightarrow> Inl e
      | Inr t \<Rightarrow>
          (case matter_cached gm cache t of
             None \<Rightarrow> Inl YAMLException
           | Some (data, content) \<Rightarrow>
               (case autogenerated_of gm s (AList.update t (data, content) cache) rest of
                  Inl e \<Rightarrow> Inl e
                | Inr (found, cache') \<Rightarrow>
                    Inr (if map_of data ''autogenerated'' = Some (JStr ''rest'')
                         then file # found else found, cache'))))"

definition existingAutogeneratedFiles ::
  "'t gray_matter \<Rightarrow> 't fs \<Rightarrow> 't memo \<Rightarrow> error + path list \<times> 't memo" where
  "existingAutogeneratedFiles gm s cache =
     (case walk s [''content'', ''rest''] of
        Inl e \<Rightarrow> Inl e
      | Inr found \<Rightarrow>
          autogenerated_of gm s cache
            (filter (\<lambda>file. \<not> js_includes (path_text file) ''index.md'' \<and>
                             \<not> js_includes (path_text file) ''README.md'') found))"

text \<open>\<open>difference(xs, ys)\<close> of lodash.\<close>

definition difference :: "'a list \<Rightarrow> 'a list \<Rightarrow> 'a list" where
  "difference xs ys = filter (\<lambda>x. x \<notin> set ys) xs"

text \<open>
  A run is described by the process when the function returns and the error it was
  rejected with, if any: what was changed before an error stays changed, and the
  updates still running go on.
\<close>

type_synonym 't outcome = "'t process \<times> error option"

text \<open>The body of the first loop (lines 44-54), every call of which is awaited.\<close>

definition remove_file :: "'t gray_matter \<Rightarrow> frontmatter \<Rightarrow> 't process \<Rightarrow> path \<Rightarrow> 't outcome" where
  "remove_file gm dflt p file =
     (case unlink (tree p) file of
        Inl e \<Rightarrow> (p, Some e)
      | Inr s1 \<Rightarrow>
          (case readdir s1 (dirname file) of
             Inl e \<Rightarrow> (p\<lparr>tree := s1\<rparr>, Some e)
           | Inr directoryFiles \<Rightarrow>
               if directoryFiles = [''index.md'']
               then await_updateIndexFile gm dflt (p\<lparr>tree := rimraf s1 (dirname file)\<rparr>)
                      (dirname file) Remove JNull
               else await_updateIndexFile gm dflt (p\<lparr>tree := s1\<rparr>) file Remove JNull))"

fun remove_files :: "'t gray_matter \<Rightarrow> frontmatter \<Rightarrow> 't process \<Rightarrow> path list \<Rightarrow> 't outcome" where
  "remove_files gm dflt p [] = (p, None)"
| "remove_files gm dflt p (file # rest) =
     (case remove_file gm dflt p file of
        (p', Some e) \<Rightarrow> (p', Some e)
      | (p', None) \<Rightarrow> remove_files gm dflt p' rest)"

text \<open>
  The body of the second loop (lines 59-75). The two calls of \<open>updateIndexFile\<close> in it
  are made without \<open>await\<close>: each is started and joins the running updates, the loop
  goes on, and whether the update later fails does not reach the loop.
\<close>

definition add_page :: "'t gray_matter \<Rightarrow> frontmatter \<Rightarrow> 't process \<Rightarrow> path \<times> frontmatter \<Rightarrow> 't outcome" where
  "add_page gm dflt p entry =
     (let file = fst entry; newFrontmatter = snd entry in
      if existsSync (tree p) file
      then
        (case awaited_read gm p file of
           (Inl e, p1) \<Rightarrow> (p1, Some e)
         | (Inr t, p1) \<Rightarrow>
             (case matter_cached gm (memo p1) t of
                None \<Rightarrow> (p1, Some YAMLException)
              | Some (data, content) \<Rightarrow>
                  (let data' = AList.update ''versions'' (js_prop newFrontmatter ''versions'') data in
                   awaited gm (\<lambda>s. writeFile s file (stringify gm content data'))
                     (p1\<lparr>memo := AList.update t (data', content) (memo p1)\<rparr>))))
      else
        (case (if \<not> existsSync (tree p) (dirname file)
               then (case awaited gm (\<lambda>s. mkdirp s (dirname file)) p of
                       (p1, Some e) \<Rightarrow> (p1, Some e)
                     | (p1, None) \<Rightarrow>
                         (start_updateIndexFile gm dflt p1 (dirname file) Add JNull, None))
               else (p, None)) of
           (p2, Some e) \<Rightarrow> (p2, Some e)
         | (p2, None) \<Rightarrow>
             (case awaited gm (\<lambda>s. writeFile s file (stringify gm [] newFrontmatter)) p2 of
                (p3, Some e) \<Rightarrow> (p3, Some e)
              | (p3, None) \<Rightarrow>
                  (start_updateIndexFile gm dflt p3 file Add (js_prop newFrontmatter ''versions''),
                   None))))"

fun add_pages :: "'t gray_matter \<Rightarrow> frontmatter \<Rightarrow> 't process \<Rightarrow> page_map \<Rightarrow> 't outcome" where
  "add_pages gm dflt p [] = (p, None)"
| "add_pages gm dflt p (entry # rest) =
     (case add_page gm dflt p entry of
        (p', Some e) \<Rightarrow> (p', Some e)
      | (p', None) \<Rightarrow> add_pages gm dflt p' rest)"

text \<open>
  The calls the body of the second loop makes for one page, in the order of the source,
  each marked with whether the loop waits for it: \<open>Await\<close> for \<open>await f(...)\<close>, \<open>Start\<close>
  for a call whose promise is dropped, which is then still running when the next call is
  made.
\<close>

datatype call = ReadFile path | WriteFile path | Mkdirp path | UpdateIndexFile path changeType

datatype step = Await call | Start call

definition page_steps :: "'t fs \<Rightarrow> path \<Rightarrow> step list" where
  "page_steps s file =
     (if existsSync s file
      then [Await (ReadFile file), Await (WriteFile file)]
      else
        (if \<not> existsSync s (dirname file)
         then [Await (Mkdirp (dirname file)), Start (UpdateIndexFile (dirname file) Add)]
         else []) @
        [Await (WriteFile file), Start (UpdateIndexFile file Add)])"

text \<open>Lines 20-76 for a given map of desired pages.\<close>

definition reconcile :: "'t gray_matter \<Rightarrow> frontmatter \<Rightarrow> page_map \<Rightarrow> 't process \<Rightarrow> 't outcome" where
  "reconcile gm dflt restContentFrontmatter p =
     (case existingAutogeneratedFiles gm (tree p) (memo p) of
        Inl e \<Rightarrow> (p, Some e)
      | Inr (existing, cache) \<Rightarrow>
          (case remove_files gm dflt (p\<lparr>memo := cache\<rparr>)
                  (difference existing (map fst restContentFrontmatter)) of
             (p', Some e) \<Rightarrow> (p', Some e)
           | (p', None) \<Rightarrow> add_pages gm dflt p' restContentFrontmatter))"

text \<open>
  A process that has just started: \<open>gray-matter\<close> has parsed nothing and no update is
  running.
\<close>

definition fresh :: "nat list list \<Rightarrow> 't fs \<Rightarrow> 't process" where
  "fresh schedule s = \<lparr>tree = s, memo = [], running = [], turns = schedule\<rparr>"

text \<open>
  The whole function in a fresh process, from the schema files as \<open>getDataFrontmatter\<close>
  reads them; \<open>None\<close> when it never returns.
\<close>

definition updateMarkdownFiles ::
  "'t gray_matter \<Rightarrow> frontmatter \<Rightarrow> registry \<Rightarrow> schema_file list \<Rightarrow> nat list list \<Rightarrow> 't fs \<Rightarrow>
   't outcome option" where
  "updateMarkdownFiles gm dflt allVersions fileList schedule s =
     (case getMarkdownFrontmatter allVersions dflt (getDataFrontmatter fileList) of
        None \<Rightarrow> None
      | Some (Inl e) \<Rightarrow> Some (fresh schedule s, Some e)
      | Some (Inr restContentFrontmatter) \<Rightarrow>
          Some (reconcile gm dflt restContentFrontmatter (fresh schedule s)))"

text \<open>
  The process at a later time: the running updates have taken the steps \<open>steps\<close>. When
  the process ends, normally or because \<open>Node\<close> stops it on a rejection nobody handles,
  the tree stays as it is then.
\<close>

definition later :: "'t gray_matter \<Rightarrow> 't process \<Rightarrow> nat list \<Rightarrow> 't process" where
  "later gm p steps = foldl (task_step gm) p steps"

section \<open>An example tree\<close>

text \<open>
  For examples a text is what it parses to, \<open>None\<close> being a text that \<open>gray-matter\<close>
  rejects.
\<close>

definition plain_matter :: "(frontmatter \<times> string) option gray_matter" where
  "plain_matter = \<lparr>matter = (\<lambda>t. t), stringify = (\<lambda>content data. Some (data, content))\<rparr>"

definition rest_index :: "(frontmatter \<times> string) option" where
  "rest_index =
     Some ([(''title'', JStr ''REST API''),
            (''children'', JArr [JStr ''/actions'', JStr ''/apps''])], ''Intro.'')"

definition example_tree :: "(frontmatter \<times> string) option fs" where
  "example_tree =
     \<lparr>files = [([''content'', ''rest'', ''index.md''], rest_index)],
      dirs = [[''content''], [''content'', ''rest'']]\<rparr>"

section \<open>Notions used to state the properties of the reconciliation\<close>

text \<open>A path whose last component is \<open>index.md\<close>: the only kind an index update writes.\<close>

definition index_like :: "path \<Rightarrow> bool" where
  "index_like p \<longleftrightarrow> p \<noteq> [] \<and> last p = ''index.md''"

text \<open>
  What \<open>gray-matter\<close> is taken to do with a page it writes. \<open>stringify\<close> ends the body
  with a newline (\<open>newline\<close> is its helper of that name) and writes the data as YAML
  between two lines \<open>---\<close>. The two properties below are asked only of bodies that do
  not themselves start with \<open>---\<close>, which \<open>stringify\<close> would read as frontmatter of the
  body.
\<close>

definition newline :: "string \<Rightarrow> string" where
  "newline str = (if str \<noteq> [] \<and> last str = CHR 0x0A then str else str @ [CHR 0x0A])"


text \<open>
  A page that was written is written again as it is: from what it parses to, with
  \<open>versions\<close> set to the value it was written with, \<open>stringify\<close> gives the same text.
\<close>

definition writes_back :: "'t gray_matter \<Rightarrow> bool" where
  "writes_back gm \<longleftrightarrow>
     (\<forall>content data v data1 content1.
        \<not> prefix ''---'' content \<longrightarrow> map_of data ''versions'' = Some v \<longrightarrow>
        matter gm (stringify gm content data) = Some (data1, content1) \<longrightarrow>
        stringify gm content1 (AList.update ''versions'' v data1) = stringify gm content data)"

text \<open>
  A desired page is in place: the file is a text that \<open>gray-matter\<close> wrote, from data
  with the desired \<open>versions\<close>.
\<close>

definition in_place :: "'t gray_matter \<Rightarrow> 't fs \<Rightarrow> path \<Rightarrow> frontmatter \<Rightarrow> bool" where
  "in_place gm s p newFrontmatter \<longleftrightarrow>
     (\<exists>content data. map_of (files s) p = Some (stringify gm content data) \<and>
        \<not> prefix ''---'' content \<and>
        map_of data ''versions'' = Some (js_prop newFrontmatter ''versions''))"

text \<open>Apart from index pages, files have only been deleted.\<close>

definition shrinks :: "'t fs \<Rightarrow> 't fs \<Rightarrow> bool" where
  "shrinks s s' \<longleftrightarrow>
     (\<forall>p. \<not> index_like p \<longrightarrow>
        map_of (files s') p = None \<or> map_of (files s') p = map_of (files s) p)"

text \<open>Apart from index pages, the files are the same.\<close>

definition same_pages :: "'t fs \<Rightarrow> 't fs \<Rightarrow> bool" where
  "same_pages s s' \<longleftrightarrow> (\<forall>p. \<not> index_like p \<longrightarrow> map_of (files s') p = map_of (files s) p)"

text \<open>Apart from index pages and the page \<open>file\<close>, the files are the same.\<close>

definition same_pages_but :: "path \<Rightarrow> 't fs \<Rightarrow> 't fs \<Rightarrow> bool" where
  "same_pages_but file s s' \<longleftrightarrow>
     (\<forall>p. \<not> index_like p \<longrightarrow> p \<noteq> file \<longrightarrow> map_of (files s') p = map_of (files s) p)"

text \<open>The files the scan of lines 22-36 keeps in a process that has parsed nothing yet.\<close>

definition autogen :: "'t gray_matter \<Rightarrow> 't fs \<Rightarrow> path \<Rightarrow> bool" where
  "autogen gm s p \<longleftrightarrow>
     prefix [''content'', ''rest''] p \<and>
     \<not> js_includes (path_text p) ''index.md'' \<and> \<not> js_includes (path_text p) ''README.md'' \<and>
     (\<exists>t data content. map_of (files s) p = Some t \<and> matter gm t = Some (data, content) \<and>
        map_of data ''autogenerated'' = Some (JStr ''rest''))"

text \<open>
  What the cache holds for a text is what the text parses to, with the same body; in
  the second form also with the same data, but for the value of \<open>versions\<close>.
\<close>

definition memo_bodies :: "'t gray_matter \<Rightarrow> 't memo \<Rightarrow> bool" where
  "memo_bodies gm cache \<longleftrightarrow>
     (\<forall>t data' content. map_of cache t = Some (data', content) \<longrightarrow>
        (\<exists>data. matter gm t = Some (data, content)))"

definition memo_data :: "'t gray_matter \<Rightarrow> 't memo \<Rightarrow> bool" where
  "memo_data gm cache \<longleftrightarrow>
     (\<forall>t data' content. map_of cache t = Some (data', content) \<longrightarrow>
        (\<exists>data. matter gm t = Some (data, content) \<and>
           (\<forall>v. AList.update ''versions'' v data' = AList.update ''versions'' v data)))"

text \<open>
  The tree is reconciled with the desired pages: each of them is in place and every
  page the scan finds is desired.
\<close>

definition reconciled :: "'t gray_matter \<Rightarrow> page_map \<Rightarrow> 't fs \<Rightarrow> bool" where
  "reconciled gm es s \<longleftrightarrow>
     (\<forall>e\<in>set es. in_place gm s (fst e) (snd e)) \<and> (\<forall>p. autogen gm s p \<longrightarrow> p \<in> fst ` set es)"

text \<open>What \<open>getMarkdownFrontmatter\<close> guarantees of its result.\<close>

definition page_map_ok :: "page_map \<Rightarrow> bool" where
  "page_map_ok pm \<longleftrightarrow> distinct (map fst pm) \<and> (\<forall>e\<in>set pm. map_of (snd e) ''versions'' \<noteq> None)"

text \<open>The paths of the desired pages, when \<open>getMarkdownFrontmatter\<close> returns them.\<close>

definition desired_pages :: "registry \<Rightarrow> frontmatter \<Rightarrow> schema_file list \<Rightarrow> path list" where
  "desired_pages allVersions dflt fileList =
     (case getMarkdownFrontmatter allVersions dflt (getDataFrontmatter fileList) of
        Some (Inr restContentFrontmatter) \<Rightarrow> map fst restContentFrontmatter
      | _ \<Rightarrow> [])"

text \<open>None of the pages \<open>ps\<close> of the tree has a body that starts with \<open>---\<close>.\<close>

definition plain_bodies :: "'t gray_matter \<Rightarrow> 't fs \<Rightarrow> path list \<Rightarrow> bool" where
  "plain_bodies gm s ps \<longleftrightarrow>
     (\<forall>p\<in>set ps. \<forall>t data content.
        map_of (files s) p = Some t \<longrightarrow> matter gm t = Some (data, content) \<longrightarrow>
        \<not> prefix ''---'' content)"

text \<open>What a run leaves to be seen of it: the tree and the error.\<close>

definition tree_and_error :: "'t outcome \<Rightarrow> 't fs \<times> error option" where
  "tree_and_error r = (tree (fst r), snd r)"

subsection \<open>Example trees\<close>

text \<open>
  For these examples a text is what it parses to, \<open>None\<close> being a text that
  \<open>gray-matter\<close> rejects, and \<open>stringify\<close> ends the body with a newline.
\<close>

definition newline_matter :: "(frontmatter \<times> string) option gray_matter" where
  "newline_matter =
     \<lparr>matter = (\<lambda>t. t), stringify = (\<lambda>content data. Some (data, newline content))\<rparr>"

text \<open>A page whose body does not end with a newline.\<close>

definition gists_page :: "(frontmatter \<times> string) option" where
  "gists_page =
     Some ([(''title'', JStr ''Gists''), (''intro'', JStr ''Use the REST API for gists.''),
            (''versions'', JObj [(''ghes'', JStr ''*'')]), (''autogenerated'', JStr ''rest'')],
           ''Intro.'')"




text \<open>
  A tree with a page that is no longer wanted (\<open>gists.md\<close>, when the schema files are
  \<open>example_files\<close>) and a page that stays (\<open>apps.md\<close>).
\<close>

definition apps_page :: "(frontmatter \<times> string) option" where
  "apps_page =
     Some ([(''title'', JStr ''Apps''), (''versions'', JObj [(''ghes'', JStr ''*'')]),
            (''autogenerated'', JStr ''rest'')], ''Intro.'')"

definition mixed_tree :: "(frontmatter \<times> string) option fs" where
  "mixed_tree =
     \<lparr>files = [([''content'', ''rest'', ''index.md''], rest_index),
               ([''content'', ''rest'', ''gists.md''], gists_page),
               ([''content'', ''rest'', ''apps.md''], apps_page)],
      dirs = [[''content''], [''content'', ''rest'']]\<rparr>"

definition one_file :: "schema_file list" where
  "one_file = [(''free-pro-team@latest'', [(''gists'', [''gists''])])]"

definition rest_defaults :: frontmatter where
  "rest_defaults = [(''autogenerated'', JStr ''rest'')]"

text \<open>A tree with two pages that are no longer wanted and an index page that does not
  parse, and the tree after each of two runs.\<close>

definition auto_page :: "(frontmatter \<times> string) option" where
  "auto_page = Some ([(''title'', JStr ''old''), (''autogenerated'', JStr ''rest'')], [])"

definition stale_tree :: "(frontmatter \<times> string) option fs" where
  "stale_tree =
     \<lparr>files = [([''content'', ''rest'', ''index.md''], rest_index),
               ([''content'', ''rest'', ''old'', ''index.md''], None),
               ([''content'', ''rest'', ''old'', ''a.md''], auto_page),
               ([''content'', ''rest'', ''old'', ''b.md''], auto_page)],
      dirs = [[''content''], [''content'', ''rest''], [''content'', ''rest'', ''old'']]\<rparr>"

definition stale_after_first :: "(frontmatter \<times> string) option fs" where
  "stale_after_first =
     \<lparr>files = [([''content'', ''rest'', ''index.md''], rest_index),
               ([''content'', ''rest'', ''old'', ''index.md''], None),
               ([''content'', ''rest'', ''old'', ''b.md''], auto_page)],
      dirs = [[''content''], [''content'', ''rest''], [''content'', ''rest'', ''old'']]\<rparr>"

definition stale_after_second :: "(frontmatter \<times> string) option fs" where
  "stale_after_second =
     \<lparr>files = [([''content'', ''rest'', ''index.md''],
                Some ([(''title'', JStr ''REST API''), (''children'', JArr [JStr ''/actions''])],
                      ''Intro.\<newline>'')),
               ([''content'', ''rest'', ''gists.md''],
                Some ([(''title'', JStr ''gists''), (''shortTitle'', JStr ''gists''),
                       (''intro'', JStr []), (''versions'', JObj [(''fpt'', JStr ''*'')]),
                       (''autogenerated'', JStr ''rest'')], ''\<newline>''))],
      dirs = [[''content''], [''content'', ''rest'']]\<rparr>"

text \<open>
  Schema files with a subcategory named \<open>index\<close>, whose page is \<open>x/index.md\<close>, and the
  example tree after a first process and after a second run for them.
\<close>

definition index_files :: "schema_file list" where
  "index_files = [(''free-pro-team@latest'', [(''x'', [''a''])]),
                  (''enterprise-server@3.3'', [(''x'', [''index''])])]"

definition raced_tree :: "(frontmatter \<times> string) option fs" where
  "raced_tree =
     \<lparr>files = [([''content'', ''rest'', ''index.md''],
                Some ([(''title'', JStr ''REST API''),
                       (''children'', JArr [JStr ''/actions'', JStr ''/apps'', JStr ''/x''])],
                      ''Intro.\<newline>'')),
               ([''content'', ''rest'', ''x'', ''a.md''],
                Some ([(''title'', JStr ''a''), (''shortTitle'', JStr ''a''), (''intro'', JStr []),
                       (''versions'', JObj [(''fpt'', JStr ''*'')]),
                       (''autogenerated'', JStr ''rest'')], ''\<newline>'')),
               ([''content'', ''rest'', ''x'', ''index.md''],
                Some ([(''title'', JStr ''x''), (''shortTitle'', JStr ''x''), (''intro'', JStr []),
                       (''versions'', JObj [(''fpt'', JStr ''*'')]),
                       (''autogenerated'', JStr ''rest''),
                       (''children'', JArr [JStr ''/a'', JStr ''/index''])], ''\<newline>''))],
      dirs = [[''content''], [''content'', ''rest''], [''content'', ''rest'', ''x'']]\<rparr>"

definition raced_again :: "(frontmatter \<times> string) option fs" where
  "raced_again =
     \<lparr>files = [([''content'', ''rest'', ''index.md''],
                Some ([(''title'', JStr ''REST API''),
                       (''children'', JArr [JStr ''/actions'', JStr ''/apps'', JStr ''/x''])],
                      ''Intro.\<newline>'')),
               ([''content'', ''rest'', ''x'', ''a.md''],
                Some ([(''title'', JStr ''a''), (''shortTitle'', JStr ''a''), (''intro'', JStr []),
                       (''versions'', JObj [(''fpt'', JStr ''*'')]),
                       (''autogenerated'', JStr ''rest'')], ''\<newline>'')),
               ([''content'', ''rest'', ''x'', ''index.md''],
                Some ([(''title'', JStr ''x''), (''shortTitle'', JStr ''x''), (''intro'', JStr []),
                       (''versions'', JObj [(''ghes'', JStr ''<=3.3'')]),
                       (''autogenerated'', JStr ''rest''),
                       (''children'', JArr [JStr ''/a'', JStr ''/index''])], ''\<newline>''))],
      dirs = [[''content''], [''content'', ''rest''], [''content'', ''rest'', ''x'']]\<rparr>"

section \<open>Properties of the version compactor\<close>

text \<open>
  The first loop of \<open>checkVersionContinuity\<close> ends only on an array with a truthy slot;
  on an array without one the function does not return, and neither does the
  conversion of a version whose release is not in its release list.
\<close>

lemma strip_leading_Some_truthy:
  assumes "strip_leading xs = Some ys"
  shows "\<exists>c\<in>set xs. truthy c"
proof (rule strip_leading.raw_induct[where P = "\<lambda>xs ys. \<exists>c\<in>set xs. truthy c", OF _ assms])
  fix strip :: "cell list \<Rightarrow> cell list option" and xs ys
  assume IH: "\<And>x y. strip x = Some y \<Longrightarrow> \<exists>c\<in>set x. truthy c"
    and eq: "(if \<not> truthy (js_get xs 0) then strip (tl xs) else Some xs) = Some ys"
  show "\<exists>c\<in>set xs. truthy c"
  proof (cases "truthy (js_get xs 0)")
    case True
    then have "xs \<noteq> []" by (auto simp: js_get_def)
    then have "js_get xs 0 \<in> set xs" by (cases xs) (auto simp: js_get_def)
    with True show ?thesis by blast
  next
    case False
    with eq have "strip (tl xs) = Some ys" by simp
    then have "\<exists>c\<in>set (tl xs). truthy c" by (rule IH)
    then show ?thesis by (cases xs) auto
  qed
qed

lemma strip_leading_None: "\<forall>c\<in>set xs. \<not> truthy c \<Longrightarrow> strip_leading xs = None"
  using strip_leading_Some_truthy by (cases "strip_leading xs") blast+

lemma checkVersionContinuity_all_holes:
  "\<forall>c\<in>set xs. \<not> truthy c \<Longrightarrow> checkVersionContinuity xs = None"
proof -
  assume "\<forall>c\<in>set xs. \<not> truthy c"
  then have "\<forall>c\<in>set (spread xs). \<not> truthy c" by (auto simp: spread_def)
  then show ?thesis by (simp add: checkVersionContinuity_def strip_leading_None)
qed

lemma unlisted_release_never_returns:
  "convertVersionsToFrontmatter unlisted_allVersions [''enterprise-server@3.6''] = None"
proof -
  have "semVer_of [Undefined, Undefined] = None"
    by (simp add: semVer_of_def checkVersionContinuity_all_holes)
  then show ?thesis
    by (simp add: convertVersionsToFrontmatter_def unlisted_allVersions_def collect_version_def)
qed

lemma strip_leading_dropWhile:
  "\<exists>c\<in>set xs. truthy c \<Longrightarrow> strip_leading xs = Some (dropWhile (\<lambda>c. \<not> truthy c) xs)"
proof (induction xs)
  case Nil
  then show ?case by simp
next
  case (Cons x xs)
  show ?case
  proof (cases "truthy x")
    case True
    then show ?thesis by (subst strip_leading.simps) (simp add: js_get_def)
  next
    case False
    with Cons.prems have "\<exists>c\<in>set xs. truthy c" by auto
    with Cons.IH False show ?thesis by (subst strip_leading.simps) (simp add: js_get_def)
  qed
qed

lemma strip_trailing_dropWhile:
  "\<exists>c\<in>set xs. truthy c \<Longrightarrow>
   strip_trailing xs = Some (rev (dropWhile (\<lambda>c. \<not> truthy c) (rev xs)))"
proof (induction xs rule: rev_induct)
  case Nil
  then show ?case by simp
next
  case (snoc x xs)
  show ?case
  proof (cases "truthy x")
    case True
    then show ?thesis by (subst strip_trailing.simps) (simp add: js_last_def)
  next
    case False
    with snoc.prems have "\<exists>c\<in>set xs. truthy c" by auto
    with snoc.IH False show ?thesis by (subst strip_trailing.simps) (simp add: js_last_def)
  qed
qed

lemma presence_append: "presence (xs @ ys) P = presence xs P @ presence ys P"
  by (simp add: presence_def)

lemma length_presence [simp]: "length (presence rs P) = length rs"
  by (simp add: presence_def)

lemma spread_presence: "spread (presence rs P) = presence rs P"
  by (simp add: spread_def presence_def)

lemma truthy_presence:
  "[] \<notin> set rs \<Longrightarrow> c \<in> set (presence rs P) \<Longrightarrow> truthy c \<longleftrightarrow> c \<noteq> Undefined"
  by (auto simp: presence_def)

lemma every_presence:
  "[] \<notin> set rs \<Longrightarrow> every_Boolean (presence rs P) \<longleftrightarrow> set rs \<subseteq> P"
  by (induction rs) (auto simp: presence_def every_Boolean_def)

lemma filter_presence:
  "[] \<notin> set rs \<Longrightarrow> filter_Boolean (presence rs P) = filter (\<lambda>r. r \<in> P) rs"
  by (induction rs) (auto simp: presence_def)

lemma presence_absent:
  "set rs \<inter> P = {} \<Longrightarrow> presence rs P = replicate (length rs) Undefined"
  by (induction rs) (auto simp: presence_def)

lemma presence_all:
  "set rs \<subseteq> P \<Longrightarrow> presence rs P = map Str rs"
  by (induction rs) (auto simp: presence_def)

lemma dropWhile_replicate_falsy:
  "truthy c \<Longrightarrow> dropWhile (\<lambda>c. \<not> truthy c) (replicate n Undefined @ c # xs) = c # xs"
  by (induction n) auto

lemma checkVersionContinuity_window:
  assumes ne: "[] \<notin> set (a @ w @ b)" and w: "w \<noteq> []"
    and a: "set a \<inter> P = {}" and b: "set b \<inter> P = {}"
    and hd: "hd w \<in> P" and lst: "last w \<in> P"
  shows "checkVersionContinuity (presence (a @ w @ b) P) = Some (set w \<subseteq> P)"
proof -
  let ?f = "\<lambda>c. \<not> truthy c"
  obtain x w' where wx: "w = x # w'" using w by (cases w) auto
  have xP: "x \<in> P" "x \<noteq> []" using hd ne wx by auto
  have pres: "presence (a @ w @ b) P =
      replicate (length a) Undefined @ presence w P @ replicate (length b) Undefined"
    using a b by (simp add: presence_append presence_absent)
  have ex: "\<exists>c\<in>set (presence (a @ w @ b) P). truthy c"
    using xP wx by (auto simp: presence_def)
  have pw: "presence w P = Str x # presence w' P" using xP wx by (simp add: presence_def)
  have d1: "dropWhile ?f (presence (a @ w @ b) P) = presence w P @ replicate (length b) Undefined"
    unfolding pres pw using xP dropWhile_replicate_falsy[of "Str x" "length a"] by simp
  have s1: "strip_leading (spread (presence (a @ w @ b) P)) =
      Some (presence w P @ replicate (length b) Undefined)"
    using strip_leading_dropWhile[OF ex] d1 by (simp add: spread_presence)
  obtain w'' y where wy: "w = w'' @ [y]" using w by (cases w rule: rev_cases) auto
  have yP: "y \<in> P" "y \<noteq> []" using lst ne wy by auto
  have pw2: "presence w P = presence w'' P @ [Str y]" using yP wy by (simp add: presence_def)
  have ex2: "\<exists>c\<in>set (presence w P @ replicate (length b) Undefined). truthy c"
    using yP pw2 by auto
  have d2: "rev (dropWhile ?f (rev (presence w P @ replicate (length b) Undefined))) = presence w P"
    unfolding pw2 using yP dropWhile_replicate_falsy[of "Str y" "length b" "rev (presence w'' P)"]
    by simp
  have s2: "strip_trailing (presence w P @ replicate (length b) Undefined) = Some (presence w P)"
    using strip_trailing_dropWhile[OF ex2] d2 by simp
  have "[] \<notin> set w" using ne by auto
  then show ?thesis
    unfolding checkVersionContinuity_def using s1 s2 by (simp add: every_presence)
qed

lemma window_exists:
  assumes "set rs \<inter> P \<noteq> {}"
  shows "\<exists>a w b. rs = a @ w @ b \<and> w \<noteq> [] \<and> set a \<inter> P = {} \<and> set b \<inter> P = {}
           \<and> hd w \<in> P \<and> last w \<in> P"
proof -
  let ?a = "takeWhile (\<lambda>r. r \<notin> P) rs"
  let ?m = "dropWhile (\<lambda>r. r \<notin> P) rs"
  let ?b = "rev (takeWhile (\<lambda>r. r \<notin> P) (rev ?m))"
  let ?w = "rev (dropWhile (\<lambda>r. r \<notin> P) (rev ?m))"
  have m_ne: "?m \<noteq> []" using assms by (auto simp: dropWhile_eq_Nil_conv)
  have hdm: "hd ?m \<in> P" using m_ne hd_dropWhile[of "\<lambda>r. r \<notin> P" rs] by auto
  have "\<exists>x\<in>set (rev ?m). x \<in> P" using hdm m_ne by (metis hd_in_set set_rev)
  then have w_ne: "?w \<noteq> []" by (auto simp: dropWhile_eq_Nil_conv)
  have "hd (dropWhile (\<lambda>r. r \<notin> P) (rev ?m)) \<in> P"
    using w_ne hd_dropWhile[of "\<lambda>r. r \<notin> P" "rev ?m"] by auto
  then have lastw: "last ?w \<in> P" using w_ne by (simp add: last_rev)
  have mwb: "?m = ?w @ ?b"
    by (metis rev_append rev_rev_ident takeWhile_dropWhile_id)
  have hdw: "hd ?w \<in> P" using hdm mwb w_ne by (metis hd_append2)
  have rs: "rs = ?a @ ?w @ ?b" using mwb by (metis takeWhile_dropWhile_id)
  have a: "set ?a \<inter> P = {}" using set_takeWhileD by fastforce
  have b: "set ?b \<inter> P = {}" using set_takeWhileD by fastforce
  show ?thesis using rs w_ne a b hdw lastw by blast
qed

lemma js_get0_presence:
  "[] \<notin> set rs \<Longrightarrow> truthy (js_get (presence rs P) 0) \<longleftrightarrow> rs \<noteq> [] \<and> hd rs \<in> P"
  by (cases rs) (auto simp: js_get_def presence_def)

lemma js_last_presence:
  "[] \<notin> set rs \<Longrightarrow> truthy (js_last (presence rs P)) \<longleftrightarrow> rs \<noteq> [] \<and> last rs \<in> P"
  by (cases rs rule: rev_cases) (auto simp: js_last_def presence_def)

lemma filter_window:
  assumes "set a \<inter> P = {}" "set b \<inter> P = {}" "set w \<subseteq> P"
  shows "filter (\<lambda>r. r \<in> P) (a @ w @ b) = w"
proof -
  have "filter (\<lambda>r. r \<in> P) a = []" "filter (\<lambda>r. r \<in> P) b = []"
    using assms by (auto simp: filter_empty_conv)
  moreover have "filter (\<lambda>r. r \<in> P) w = w" using assms by (auto simp: filter_id_conv)
  ultimately show ?thesis by simp
qed

lemma semVer_of_window:
  assumes ne: "[] \<notin> set (a @ w @ b)" and w: "w \<noteq> []"
    and a: "set a \<inter> P = {}" and b: "set b \<inter> P = {}" and wP: "set w \<subseteq> P"
  shows "semVer_of (presence (a @ w @ b) P) =
     Some (if a = [] \<and> b = [] then ''*''
           else join '' '' ((if b \<noteq> [] then [''<='' @ last w] else []) @
                            (if a \<noteq> [] then [''>='' @ hd w] else [])))"
proof -
  have hl: "hd w \<in> P" "last w \<in> P" using w wP by auto
  have c: "checkVersionContinuity (presence (a @ w @ b) P) = Some True"
    using checkVersionContinuity_window[OF ne w a b hl] wP by simp
  have "set a \<subseteq> P \<Longrightarrow> a = []" using a by (cases a) auto
  moreover have "set b \<subseteq> P \<Longrightarrow> b = []" using b by (cases b) auto
  ultimately have ev: "every_Boolean (presence (a @ w @ b) P) \<longleftrightarrow> a = [] \<and> b = []"
    using every_presence[OF ne, of P] wP by auto
  have f: "filter_Boolean (presence (a @ w @ b) P) = w"
    using filter_presence[OF ne, of P] filter_window[OF a b wP] by simp
  have l: "truthy (js_last (presence (a @ w @ b) P)) \<longleftrightarrow> b = []"
    using js_last_presence[OF ne, of P] b w hl
    by (cases b rule: rev_cases) auto
  have g: "truthy (js_get (presence (a @ w @ b) P) 0) \<longleftrightarrow> a = []"
    using js_get0_presence[OF ne, of P] a w hl
    by (cases a) auto
  show ?thesis
    unfolding semVer_of_def c ev f l g using w
    by (simp add: pop_str_def shift_str_def)
qed

lemma semVer_of_gaps:
  assumes ne: "[] \<notin> set (a @ w @ b)" and w: "w \<noteq> []"
    and a: "set a \<inter> P = {}" and b: "set b \<inter> P = {}"
    and hl: "hd w \<in> P" "last w \<in> P" and wP: "\<not> set w \<subseteq> P"
  shows "semVer_of (presence (a @ w @ b) P) =
     Some (join '' || '' (map (\<lambda>release. ''='' @ release) (filter (\<lambda>r. r \<in> P) (a @ w @ b))))"
proof -
  have c: "checkVersionContinuity (presence (a @ w @ b) P) = Some False"
    using checkVersionContinuity_window[OF ne w a b hl] wP by simp
  have ev: "\<not> every_Boolean (presence (a @ w @ b) P)"
    using every_presence[OF ne, of P] wP by auto
  have fp: "filter_Boolean (presence (a @ w @ b) P) = filter (\<lambda>r. r \<in> P) (a @ w @ b)"
    using filter_presence[OF ne, of P] by simp
  show ?thesis
    unfolding semVer_of_def c
    by (simp only: option.case ev fp if_False if_True not_False_eq_True)
qed

lemma set_present_releases:
  "set (present_releases reg vs k) =
     {currentRelease dv |v dv. v \<in> set vs \<and> reg v = Some dv \<and> shortName dv = k \<and> hasNumberedReleases dv}"
  by (force simp: present_releases_def List.map_filter_def)

lemma present_releases_snoc:
  "reg v = Some dv \<Longrightarrow>
   set (present_releases reg (ps @ [v]) k) =
     (if shortName dv = k \<and> hasNumberedReleases dv
      then insert (currentRelease dv) (set (present_releases reg ps k))
      else set (present_releases reg ps k))"
  by (simp add: present_releases_def List.map_filter_def)

lemma indexOf_Some:
  "y \<in> set xs \<Longrightarrow> \<exists>i. indexOf xs y = Some i \<and> i < length xs \<and> xs ! i = y"
  by (induction xs) auto

lemma presence_insert:
  "distinct rs \<Longrightarrow> i < length rs \<Longrightarrow>
   (presence rs P)[i := Str (rs ! i)] = presence rs (insert (rs ! i) P)"
  by (rule nth_equalityI) (auto simp: presence_def nth_list_update nth_eq_iff_index_eq)

lemma presence_empty: "presence rs {} = replicate (length rs) Undefined"
  by (simp add: presence_absent)

lemma set_release_presence:
  assumes "distinct rs" "r \<in> set rs"
  shows "set_release (presence rs P) (indexOf rs r) r = presence rs (insert r P)"
proof -
  obtain i where i: "indexOf rs r = Some i" "i < length rs" "rs ! i = r"
    using indexOf_Some[OF assms(2)] by blast
  then show ?thesis using presence_insert[OF assms(1) i(2), of P] by (simp add: js_set_def)
qed

lemma well_formed_prefix: "well_formed reg (ps @ v # vs) \<Longrightarrow> well_formed reg (ps @ [v])"
proof -
  assume wf: "well_formed reg (ps @ v # vs)"
  have sub: "set (ps @ [v]) \<subseteq> set (ps @ v # vs)" by auto
  show ?thesis
    unfolding well_formed_def
  proof (intro conjI ballI allI impI)
    fix u assume "u \<in> set (ps @ [v])"
    then have "u \<in> set (ps @ v # vs)" using sub by blast
    then show "\<exists>dv. reg u = Some dv \<and> version_ok dv" using wf unfolding well_formed_def by blast
  next
    fix u w dv dw
    assume "u \<in> set (ps @ [v])" "w \<in> set (ps @ [v])" "reg u = Some dv" "reg w = Some dw"
    moreover then have "u \<in> set (ps @ v # vs)" "w \<in> set (ps @ v # vs)" using sub by blast+
    ultimately show "same_line dv dw" using wf unfolding well_formed_def by blast
  qed
qed

lemma collect_version_unnumbered:
  assumes wf: "well_formed reg (ps @ [v])" and inv: "collected reg ps acc"
    and dv: "reg v = Some dv" and un: "\<not> hasNumberedReleases dv"
  shows "collected reg (ps @ [v]) (AList.update (shortName dv) ''*'' (fst acc), snd acc)"
proof -
  have pr: "\<And>k. set (present_releases reg (ps @ [v]) k) = set (present_releases reg ps k)"
    using present_releases_snoc[of reg v dv ps] dv un by simp
  show ?thesis
    using inv dv un unfolding collected_def
    by (auto simp: distinct_update update_conv' pr)
qed

lemma collect_version_numbered:
  assumes wf: "well_formed reg (ps @ [v])" and inv: "collected reg ps acc"
    and dv: "reg v = Some dv" and nu: "hasNumberedReleases dv"
  shows "\<exists>acc'. collect_version reg acc v = Inr acc' \<and> collected reg (ps @ [v]) acc'"
proof -
  let ?k = "shortName dv" and ?rs = "sort (releases dv)" and ?r = "currentRelease dv"
  let ?P = "set (present_releases reg ps ?k)"
  have ok: "version_ok dv" using wf dv unfolding well_formed_def by auto
  have rs: "distinct ?rs" "?r \<in> set ?rs" using ok nu by (auto simp: version_ok_def)
  have line: "\<And>u du. u \<in> set (ps @ [v]) \<Longrightarrow> reg u = Some du \<Longrightarrow> same_line du dv"
    using wf dv unfolding well_formed_def by auto
  have same: "\<And>u du. u \<in> set (ps @ [v]) \<Longrightarrow> reg u = Some du \<Longrightarrow> shortName du = ?k
        \<Longrightarrow> hasNumberedReleases du \<and> sort (releases du) = ?rs"
    using line nu unfolding same_line_def by blast
  define old where "old = (case map_of (snd acc) ?k of None \<Rightarrow> replicate (length (releases dv)) Undefined
                           | Some a \<Rightarrow> a)"
  have old: "old = presence ?rs ?P"
  proof (cases "map_of (snd acc) ?k")
    case None
    have "?P = {}"
    proof (rule ccontr)
      assume "?P \<noteq> {}"
      then obtain u du where u: "u \<in> set ps" "reg u = Some du" "shortName du = ?k" "hasNumberedReleases du"
        unfolding set_present_releases by blast
      have "\<forall>v\<in>set ps. \<forall>dv. reg v = Some dv \<longrightarrow> hasNumberedReleases dv \<longrightarrow>
          map_of (snd acc) (shortName dv) =
            Some (presence (sort (releases dv)) (set (present_releases reg ps (shortName dv))))"
        using inv unfolding collected_def by blast
      with u have "map_of (snd acc) (shortName du) \<noteq> None" by fastforce
      with None u show False by simp
    qed
    then show ?thesis using None by (simp add: old_def presence_empty)
  next
    case (Some a)
    then have "?k \<in> fst ` set (snd acc)" by (metis map_of_eq_None_iff option.distinct(1))
    then obtain u du where u: "u \<in> set ps" "reg u = Some du" "shortName du = ?k" "hasNumberedReleases du"
      using inv unfolding collected_def by blast
    moreover have "\<forall>v\<in>set ps. \<forall>dv. reg v = Some dv \<longrightarrow> hasNumberedReleases dv \<longrightarrow>
          map_of (snd acc) (shortName dv) =
            Some (presence (sort (releases dv)) (set (present_releases reg ps (shortName dv))))"
      using inv unfolding collected_def by blast
    ultimately have "map_of (snd acc) ?k = Some (presence (sort (releases du)) ?P)"
      by fastforce
    moreover have "sort (releases du) = ?rs" using same[of u du] u by simp
    ultimately show ?thesis using Some by (simp add: old_def)
  qed
  define new where "new = set_release old (indexOf ?rs ?r) ?r"
  have new: "new = presence ?rs (insert ?r ?P)"
    unfolding new_def old using set_release_presence[OF rs] by simp
  have step: "collect_version reg acc v = Inr (fst acc, AList.update ?k new (snd acc))"
    using dv nu by (simp add: collect_version_def new_def old_def Let_def split: option.split)
  have pr: "\<And>k. set (present_releases reg (ps @ [v]) k) =
      (if k = ?k then insert ?r (set (present_releases reg ps k)) else set (present_releases reg ps k))"
    using present_releases_snoc[of reg v dv ps] dv nu by auto
  have "collected reg (ps @ [v]) (fst acc, AList.update ?k new (snd acc))"
    unfolding collected_def
  proof (intro conjI allI ballI impI)
    show "distinct (map fst (fst (fst acc, AList.update ?k new (snd acc))))"
      using inv unfolding collected_def by simp
    show "distinct (map fst (snd (fst acc, AList.update ?k new (snd acc))))"
      using inv unfolding collected_def by (simp add: distinct_update)
  next
    fix k
    show "map_of (fst (fst acc, AList.update ?k new (snd acc))) k =
        (if \<exists>u\<in>set (ps @ [v]). \<exists>du. reg u = Some du \<and> shortName du = k \<and> \<not> hasNumberedReleases du
         then Some ''*'' else None)"
      using inv dv nu unfolding collected_def by auto
  next
    fix k assume "k \<in> fst ` set (snd (fst acc, AList.update ?k new (snd acc)))"
    then have "k = ?k \<or> k \<in> fst ` set (snd acc)" by (auto simp: dom_update)
    then show "\<exists>u\<in>set (ps @ [v]). \<exists>du. reg u = Some du \<and> shortName du = k \<and> hasNumberedReleases du"
    proof
      assume "k = ?k" then show ?thesis using dv nu by auto
    next
      assume "k \<in> fst ` set (snd acc)"
      then show ?thesis using inv unfolding collected_def by auto
    qed
  next
    fix u du assume u: "u \<in> set (ps @ [v])" "reg u = Some du" "hasNumberedReleases du"
    show "map_of (snd (fst acc, AList.update ?k new (snd acc))) (shortName du) =
        Some (presence (sort (releases du)) (set (present_releases reg (ps @ [v]) (shortName du))))"
    proof (cases "shortName du = ?k")
      case True
      then have "sort (releases du) = ?rs" using same[of u du] u by simp
      then show ?thesis using True new pr by (simp add: update_conv')
    next
      case False
      then have "u \<in> set ps" using u dv by auto
      moreover have "\<forall>v\<in>set ps. \<forall>dv. reg v = Some dv \<longrightarrow> hasNumberedReleases dv \<longrightarrow>
          map_of (snd acc) (shortName dv) =
            Some (presence (sort (releases dv)) (set (present_releases reg ps (shortName dv))))"
        using inv unfolding collected_def by blast
      ultimately have "map_of (snd acc) (shortName du) =
          Some (presence (sort (releases du)) (set (present_releases reg ps (shortName du))))"
        using u by blast
      then show ?thesis using False pr by (simp add: update_conv')
    qed
  qed
  with step show ?thesis by blast
qed

lemma collect_version_collected:
  assumes wf: "well_formed reg (ps @ [v])" and inv: "collected reg ps acc"
  shows "\<exists>acc'. collect_version reg acc v = Inr acc' \<and> collected reg (ps @ [v]) acc'"
proof -
  obtain dv where dv: "reg v = Some dv" using wf unfolding well_formed_def by auto
  show ?thesis
  proof (cases "hasNumberedReleases dv")
    case True
    then show ?thesis using collect_version_numbered[OF wf inv dv] by simp
  next
    case False
    then have "collect_version reg acc v = Inr (AList.update (shortName dv) ''*'' (fst acc), snd acc)"
      using dv by (simp add: collect_version_def)
    then show ?thesis using collect_version_unnumbered[OF wf inv dv False] by simp
  qed
qed

lemma collect_versions_collected:
  "well_formed reg (ps @ vs) \<Longrightarrow> collected reg ps acc \<Longrightarrow>
   \<exists>acc'. collect_versions reg acc vs = Inr acc' \<and> collected reg (ps @ vs) acc'"
proof (induction vs arbitrary: ps acc)
  case Nil
  then show ?case by simp
next
  case (Cons v vs)
  from Cons.prems obtain acc1 where
    a1: "collect_version reg acc v = Inr acc1" "collected reg (ps @ [v]) acc1"
    using collect_version_collected[OF well_formed_prefix] by blast
  have "well_formed reg ((ps @ [v]) @ vs)" using Cons.prems by simp
  from Cons.IH[OF this a1(2)] a1(1) show ?case by simp
qed

lemma collected_init: "collected reg [] ([], [])"
  by (simp add: collected_def)

lemma semVer_of_presence_Some:
  assumes ne: "[] \<notin> set rs" and P: "set rs \<inter> P \<noteq> {}"
  shows "\<exists>e. semVer_of (presence rs P) = Some e"
proof -
  obtain a w b where d: "rs = a @ w @ b" "w \<noteq> []" "set a \<inter> P = {}" "set b \<inter> P = {}"
      "hd w \<in> P" "last w \<in> P"
    using window_exists[OF P] by blast
  have ne': "[] \<notin> set (a @ w @ b)" using ne d(1) by simp
  show ?thesis
  proof (cases "set w \<subseteq> P")
    case True
    then show ?thesis using semVer_of_window[OF ne' d(2,3,4)] d(1) by simp
  next
    case False
    then show ?thesis using semVer_of_gaps[OF ne' d(2,3,4,5,6)] d(1) by simp
  qed
qed

lemma semVer_all_map:
  "distinct (map fst nr) \<Longrightarrow> \<forall>p\<in>set nr. \<exists>e. semVer_of (snd p) = Some e \<Longrightarrow>
   \<exists>fm'. semVer_all fm nr = Some fm' \<and>
         (distinct (map fst fm) \<longrightarrow> distinct (map fst fm')) \<and>
         fst ` set fm' = fst ` set fm \<union> fst ` set nr \<and>
         (\<forall>k. map_of fm' k = (case map_of nr k of None \<Rightarrow> map_of fm k | Some a \<Rightarrow> semVer_of a))"
proof (induction nr arbitrary: fm)
  case Nil
  then show ?case by simp
next
  case (Cons p nr)
  obtain key a where p: "p = (key, a)" by (cases p)
  obtain e where e: "semVer_of a = Some e" using Cons.prems(2) p by auto
  have d: "distinct (map fst nr)" and knr: "key \<notin> fst ` set nr" using Cons.prems(1) p by auto
  have "\<forall>p\<in>set nr. \<exists>e. semVer_of (snd p) = Some e" using Cons.prems(2) by simp
  from Cons.IH[OF d this, of "AList.update key e fm"] obtain fm' where
    fm': "semVer_all (AList.update key e fm) nr = Some fm'"
      "distinct (map fst (AList.update key e fm)) \<longrightarrow> distinct (map fst fm')"
      "fst ` set fm' = fst ` set (AList.update key e fm) \<union> fst ` set nr"
      "\<forall>k. map_of fm' k = (case map_of nr k of None \<Rightarrow> map_of (AList.update key e fm) k
                               | Some a \<Rightarrow> semVer_of a)"
    by blast
  have none: "map_of nr key = None" using knr by (simp add: map_of_eq_None_iff)
  have "semVer_all fm (p # nr) = Some fm'" using p e fm'(1) by simp
  moreover have "distinct (map fst fm) \<longrightarrow> distinct (map fst fm')"
    using fm'(2) by (simp add: distinct_update)
  moreover have "fst ` set fm' = fst ` set fm \<union> fst ` set (p # nr)"
    using fm'(3) p by (auto simp: dom_update)
  moreover have "\<forall>k. map_of fm' k =
      (case map_of (p # nr) k of None \<Rightarrow> map_of fm k | Some a \<Rightarrow> semVer_of a)"
    using fm'(4) p e none by (auto simp: update_conv' split: option.split)
  ultimately show ?case by blast
qed

lemma map_of_sorted_obj:
  "distinct (map fst fm) \<Longrightarrow> map_of (sorted_obj fm) = map_of fm"
proof
  fix k assume d: "distinct (map fst fm)"
  show "map_of (sorted_obj fm) k = map_of fm k"
  proof (cases "k \<in> fst ` set fm")
    case True
    then obtain v where v: "map_of fm k = Some v"
      by (metis map_of_eq_None_iff not_Some_eq)
    have "k \<in> set (sort (map fst fm))" using True by simp
    then have "map_of (map (\<lambda>key. (key, the (map_of fm key))) (sort (map fst fm))) k
        = Some (the (map_of fm k))"
      by (simp add: map_of_map_restrict)
    then show ?thesis using v by (simp add: sorted_obj_def)
  next
    case False
    then have "map_of fm k = None" by (simp add: map_of_eq_None_iff)
    moreover have "k \<notin> fst ` set (sorted_obj fm)" using False by (force simp: sorted_obj_def)
    then have "map_of (sorted_obj fm) k = None" by (simp add: map_of_eq_None_iff)
    ultimately show ?thesis by simp
  qed
qed

lemma keys_sorted_obj: "map fst (sorted_obj fm) = sort (map fst fm)"
  by (simp add: sorted_obj_def comp_def)

lemma convert_characterised:
  assumes wf: "well_formed reg vs"
  shows "\<exists>out. convertVersionsToFrontmatter reg vs = Some (Inr out) \<and>
      sorted (map fst out) \<and> distinct (map fst out) \<and>
      fst ` set out = line_keys reg vs \<and>
      (\<forall>v\<in>set vs. \<forall>dv. reg v = Some dv \<longrightarrow>
         map_of out (shortName dv) =
           (if hasNumberedReleases dv
            then semVer_of (presence (sort (releases dv)) (set (present_releases reg vs (shortName dv))))
            else Some ''*''))"
proof -
  obtain acc where acc: "collect_versions reg ([], []) vs = Inr acc" "collected reg vs acc"
    using collect_versions_collected[of reg "[]" vs, OF _ collected_init] wf by auto
  obtain fm nr where fn: "acc = (fm, nr)" by (cases acc)
  have dfm: "distinct (map fst fm)" and dnr: "distinct (map fst nr)"
    using acc(2) fn by (auto simp: collected_def)
  have I3: "\<And>k. map_of fm k =
        (if \<exists>v\<in>set vs. \<exists>dv. reg v = Some dv \<and> shortName dv = k \<and> \<not> hasNumberedReleases dv
         then Some ''*'' else None)"
    using acc(2) fn unfolding collected_def by simp
  have I4: "\<And>k. k \<in> fst ` set nr \<Longrightarrow>
        \<exists>v\<in>set vs. \<exists>dv. reg v = Some dv \<and> shortName dv = k \<and> hasNumberedReleases dv"
    using acc(2) fn unfolding collected_def by simp
  have I5: "\<And>v dv. v \<in> set vs \<Longrightarrow> reg v = Some dv \<Longrightarrow> hasNumberedReleases dv \<Longrightarrow>
        map_of nr (shortName dv) =
          Some (presence (sort (releases dv)) (set (present_releases reg vs (shortName dv))))"
    using acc(2) fn unfolding collected_def by simp
  have fin: "\<forall>p\<in>set nr. \<exists>e. semVer_of (snd p) = Some e"
  proof
    fix p assume p: "p \<in> set nr"
    then obtain v dv where v: "v \<in> set vs" "reg v = Some dv" "shortName dv = fst p"
        "hasNumberedReleases dv"
      using I4[of "fst p"] by force
    have "map_of nr (fst p) = Some (snd p)" using p dnr by simp
    then have sp: "snd p = presence (sort (releases dv)) (set (present_releases reg vs (fst p)))"
      using I5[OF v(1,2,4)] v(3) by simp
    have "version_ok dv" using wf v unfolding well_formed_def by auto
    then have "[] \<notin> set (sort (releases dv))" "currentRelease dv \<in> set (sort (releases dv))"
      using v(4) by (auto simp: version_ok_def)
    moreover have "currentRelease dv \<in> set (present_releases reg vs (fst p))"
      unfolding set_present_releases using v by blast
    ultimately show "\<exists>e. semVer_of (snd p) = Some e"
      unfolding sp by (intro semVer_of_presence_Some) auto
  qed
  from semVer_all_map[OF dnr fin, of fm] dfm obtain fm' where
    fm': "semVer_all fm nr = Some fm'" "distinct (map fst fm')"
      "fst ` set fm' = fst ` set fm \<union> fst ` set nr"
      "\<And>k. map_of fm' k = (case map_of nr k of None \<Rightarrow> map_of fm k | Some a \<Rightarrow> semVer_of a)"
    by blast
  let ?out = "sorted_obj fm'"
  have conv: "convertVersionsToFrontmatter reg vs = Some (Inr ?out)"
    using acc(1) fn fm'(1) by (simp add: convertVersionsToFrontmatter_def)
  have s: "sorted (map fst ?out)" by (simp add: keys_sorted_obj)
  have d: "distinct (map fst ?out)" using fm'(2) by (simp add: keys_sorted_obj)
  have kfm: "fst ` set fm = {k. \<exists>v\<in>set vs. \<exists>dv. reg v = Some dv \<and> shortName dv = k \<and> \<not> hasNumberedReleases dv}"
  proof -
    have "\<And>k. k \<in> fst ` set fm \<longleftrightarrow> map_of fm k \<noteq> None" by (simp add: map_of_eq_None_iff)
    then have "\<And>k. k \<in> fst ` set fm \<longleftrightarrow>
        (\<exists>v\<in>set vs. \<exists>dv. reg v = Some dv \<and> shortName dv = k \<and> \<not> hasNumberedReleases dv)"
      unfolding I3 by (simp split: if_splits)
    then show ?thesis by blast
  qed
  have knr: "fst ` set nr = {k. \<exists>v\<in>set vs. \<exists>dv. reg v = Some dv \<and> shortName dv = k \<and> hasNumberedReleases dv}"
  proof (rule set_eqI, rule iffI)
    fix k assume "k \<in> fst ` set nr"
    from I4[OF this] show "k \<in> {k. \<exists>v\<in>set vs. \<exists>dv. reg v = Some dv \<and> shortName dv = k \<and> hasNumberedReleases dv}"
      by simp
  next
    fix k assume "k \<in> {k. \<exists>v\<in>set vs. \<exists>dv. reg v = Some dv \<and> shortName dv = k \<and> hasNumberedReleases dv}"
    then obtain v dv where v: "v \<in> set vs" "reg v = Some dv" "shortName dv = k" "hasNumberedReleases dv"
      by blast
    from I5[OF v(1,2,4)] v(3) have "map_of nr k \<noteq> None" by simp
    then show "k \<in> fst ` set nr" by (simp add: map_of_eq_None_iff)
  qed
  have keys: "fst ` set ?out = line_keys reg vs"
  proof -
    have "fst ` set ?out = set (map fst ?out)" by simp
    also have "\<dots> = fst ` set fm'" unfolding keys_sorted_obj by simp
    also have "\<dots> = line_keys reg vs"
    proof -
      have "\<And>k. (\<exists>v\<in>set vs. \<exists>dv. reg v = Some dv \<and> shortName dv = k \<and> \<not> hasNumberedReleases dv) \<or>
            (\<exists>v\<in>set vs. \<exists>dv. reg v = Some dv \<and> shortName dv = k \<and> hasNumberedReleases dv) \<longleftrightarrow>
            (\<exists>v dv. k = shortName dv \<and> v \<in> set vs \<and> reg v = Some dv)"
        by blast
      then show ?thesis unfolding fm'(3) kfm knr line_keys_def Un_def mem_Collect_eq by simp
    qed
    finally show ?thesis .
  qed
  have vals: "\<forall>v\<in>set vs. \<forall>dv. reg v = Some dv \<longrightarrow>
         map_of ?out (shortName dv) =
           (if hasNumberedReleases dv
            then semVer_of (presence (sort (releases dv)) (set (present_releases reg vs (shortName dv))))
            else Some ''*'')"
  proof (intro ballI allI impI)
    fix v dv assume v: "v \<in> set vs" "reg v = Some dv"
    show "map_of ?out (shortName dv) =
           (if hasNumberedReleases dv
            then semVer_of (presence (sort (releases dv)) (set (present_releases reg vs (shortName dv))))
            else Some ''*'')"
    proof (cases "hasNumberedReleases dv")
      case True
      then show ?thesis using I5[OF v True] fm'(4) fm'(2) by (simp add: map_of_sorted_obj)
    next
      case False
      have "shortName dv \<notin> fst ` set nr"
      proof
        assume "shortName dv \<in> fst ` set nr"
        then obtain u du where u: "u \<in> set vs" "reg u = Some du" "shortName du = shortName dv"
            "hasNumberedReleases du" using I4 by blast
        then have "same_line du dv" using wf v unfolding well_formed_def by blast
        then show False using u False by (simp add: same_line_def)
      qed
      then have "map_of nr (shortName dv) = None" by (simp add: map_of_eq_None_iff)
      moreover have "map_of fm (shortName dv) = Some ''*''" using I3 v False by auto
      ultimately show ?thesis using False fm'(4) fm'(2) by (simp add: map_of_sorted_obj)
    qed
  qed
  show ?thesis using conv s d keys vals by blast
qed

lemma split_on_none: "sep \<notin> set xs \<Longrightarrow> split_on sep xs = [xs]"
  by (induction xs) auto

lemma split_on_first: "sep \<notin> set xs \<Longrightarrow> split_on sep (xs @ sep # ys) = xs # split_on sep ys"
  by (induction xs) auto

lemma split_join_space:
  "toks \<noteq> [] \<Longrightarrow> \<forall>t\<in>set toks. CHR '' '' \<notin> set t \<Longrightarrow>
   split_on (CHR '' '') (join '' '' toks) = toks"
proof (induction toks rule: or_tokens.induct)
  case 1 then show ?case by simp
next
  case (2 x) then show ?case by (simp add: split_on_none)
next
  case (3 x y ys)
  then show ?case using split_on_first[of "CHR '' ''" x "join '' '' (y # ys)"] by simp
qed

lemma split_join_or:
  "toks \<noteq> [] \<Longrightarrow> \<forall>t\<in>set toks. CHR '' '' \<notin> set t \<Longrightarrow>
   split_on (CHR '' '') (join '' || '' toks) = or_tokens toks"
proof (induction toks rule: or_tokens.induct)
  case 1 then show ?case by simp
next
  case (2 x) then show ?case by (simp add: split_on_none)
next
  case (3 x y ys)
  have "split_on (CHR '' '') (join '' || '' (x # y # ys)) =
      x # split_on (CHR '' '') (''||'' @ CHR '' '' # join '' || '' (y # ys))"
    using 3 split_on_first[of "CHR '' ''" x "''||'' @ CHR '' '' # join '' || '' (y # ys)"] by simp
  also have "\<dots> = x # ''||'' # split_on (CHR '' '') (join '' || '' (y # ys))"
    using split_on_first[of "CHR '' ''" "''||''" "join '' || '' (y # ys)"] by simp
  finally show ?case using 3 by simp
qed

lemma split_or_tokens:
  "toks \<noteq> [] \<Longrightarrow> ''||'' \<notin> set toks \<Longrightarrow>
   split_on ''||'' (or_tokens toks) = map (\<lambda>t. [t]) toks"
proof (induction toks rule: or_tokens.induct)
  case 1 then show ?case by simp
next
  case (2 x) then show ?case by auto
next
  case (3 x y ys)
  then show ?case using split_on_first[of "''||''" "[x]" "or_tokens (y # ys)"] by auto
qed

lemma evaluate_star: "evaluate rs ''*'' = rs"
  by (simp add: evaluate_def comparator_def)

lemma evaluate_enumeration:
  assumes ps: "ps \<noteq> []" and sp: "\<forall>p\<in>set ps. CHR '' '' \<notin> set p"
  shows "evaluate rs (join '' || '' (map (\<lambda>release. ''='' @ release) ps)) =
         filter (\<lambda>r. r \<in> set ps) rs"
proof -
  let ?toks = "map (\<lambda>release. ''='' @ release) ps"
  have t1: "?toks \<noteq> []" using ps by simp
  have t2: "\<forall>t\<in>set ?toks. CHR '' '' \<notin> set t" using sp by auto
  have t3: "''||'' \<notin> set ?toks" by auto
  have parse: "split_on ''||'' (split_on (CHR '' '') (join '' || '' ?toks)) = map (\<lambda>t. [t]) ?toks"
    using split_join_or[OF t1 t2] split_or_tokens[OF t1 t3] by simp
  have cmp: "\<And>p. comparator rs (CHR ''='' # p) = filter (\<lambda>r. r = p) rs"
    by (simp add: comparator_def)
  show ?thesis
    unfolding evaluate_def parse
    by (rule filter_cong) (auto simp: list_ex_iff cmp)
qed

lemma takeWhile_upto:
  "v \<notin> set pre \<Longrightarrow> takeWhile (\<lambda>r. r \<noteq> v) (pre @ v # post) = pre"
  by (induction pre) auto

lemma dropWhile_from:
  "v \<notin> set pre \<Longrightarrow> dropWhile (\<lambda>r. r \<noteq> v) (pre @ v # post) = v # post"
  by (induction pre) auto

lemma comparator_le:
  "distinct (pre @ v # post) \<Longrightarrow> comparator (pre @ v # post) (''<='' @ v) = pre @ [v]"
  by (simp add: comparator_def takeWhile_upto)

lemma comparator_ge:
  "distinct (pre @ v # post) \<Longrightarrow> comparator (pre @ v # post) (''>='' @ v) = v # post"
  by (simp add: comparator_def dropWhile_from)

lemma evaluate_bounds:
  assumes d: "distinct (a @ w @ b)" and w: "w \<noteq> []"
    and sp: "\<forall>r\<in>set w. CHR '' '' \<notin> set r" and hole: "a \<noteq> [] \<or> b \<noteq> []"
  shows "evaluate (a @ w @ b)
           (join '' '' ((if b \<noteq> [] then [''<='' @ last w] else []) @
                        (if a \<noteq> [] then [''>='' @ hd w] else []))) = w"
proof -
  let ?rs = "a @ w @ b"
  let ?toks = "(if b \<noteq> [] then [''<='' @ last w] else []) @ (if a \<noteq> [] then [''>='' @ hd w] else [])"
  have hl: "hd w \<in> set w" "last w \<in> set w" using w by auto
  have t1: "?toks \<noteq> []" using hole by auto
  have t2: "\<forall>t\<in>set ?toks. CHR '' '' \<notin> set t" using sp hl by auto
  have t3: "''||'' \<notin> set ?toks" by auto
  have parse: "split_on ''||'' (split_on (CHR '' '') (join '' '' ?toks)) = [?toks]"
    using split_join_space[OF t1 t2] split_on_none[OF t3] by simp
  have rs1: "?rs = (a @ butlast w) @ last w # b" using w by simp
  have rs2: "?rs = a @ hd w # (tl w @ b)" using w by simp
  have le: "comparator ?rs (''<='' @ last w) = a @ w"
    using comparator_le[of "a @ butlast w" "last w" b] d w unfolding rs1[symmetric] by simp
  have ge: "comparator ?rs (''>='' @ hd w) = w @ b"
    using comparator_ge[of a "hd w" "tl w @ b"] d w unfolding rs2[symmetric] by simp
  define Q where "Q = {r. \<forall>tok\<in>set ?toks. r \<in> set (comparator ?rs tok)}"
  have Q: "Q = (if b \<noteq> [] then set (a @ w) else UNIV) \<inter> (if a \<noteq> [] then set (w @ b) else UNIV)"
    unfolding Q_def using le ge by auto
  have qa: "set a \<inter> Q = {}" using d hole unfolding Q by auto
  have qb: "set b \<inter> Q = {}" using d hole unfolding Q by auto
  have qw: "set w \<subseteq> Q" unfolding Q by auto
  have "evaluate ?rs (join '' '' ?toks) = filter (\<lambda>r. r \<in> Q) ?rs"
    unfolding evaluate_def parse Q_def by (simp add: list_all_iff)
  then show ?thesis using filter_window[OF qa qb qw] by simp
qed

lemma dropWhile_keeps:
  "\<not> Q z \<Longrightarrow> \<exists>A'. dropWhile Q (A @ z # R) = A' @ z # R"
proof (induction A)
  case Nil
  then show ?case by simp
next
  case (Cons x A)
  then show ?case by (cases "Q x") (auto intro: exI[of _ "x # A"])
qed

lemma checkVersionContinuity_gap:
  assumes c: "truthy c" and d: "truthy d" and e: "e \<in> set M" "\<not> truthy e"
    and ne: "Empty \<notin> set (A @ c # M @ d # B)"
  shows "checkVersionContinuity (A @ c # M @ d # B) = Some False"
proof -
  let ?f = "\<lambda>c. \<not> truthy c"
  let ?xs = "A @ c # M @ d # B"
  have sp: "spread ?xs = ?xs" using ne unfolding spread_def by (intro map_idI) auto
  have ex: "\<exists>x\<in>set ?xs. truthy x" using c by auto
  obtain A' where A': "dropWhile ?f ?xs = A' @ c # M @ d # B"
    using dropWhile_keeps[of ?f c A "M @ d # B"] c by auto
  have ex2: "\<exists>x\<in>set (A' @ c # M @ d # B). truthy x" using c by auto
  have "rev (A' @ c # M @ d # B) = rev B @ d # (rev M @ c # rev A')" by simp
  then obtain B' where B': "dropWhile ?f (rev (A' @ c # M @ d # B)) = B' @ d # (rev M @ c # rev A')"
    using dropWhile_keeps[of ?f d "rev B" "rev M @ c # rev A'"] d by auto
  have s1: "strip_leading (spread ?xs) = Some (A' @ c # M @ d # B)"
    unfolding sp using strip_leading_dropWhile[OF ex] A' by simp
  have s2: "strip_trailing (A' @ c # M @ d # B) = Some (A' @ c # M @ d # rev B')"
    using strip_trailing_dropWhile[OF ex2] B' by simp
  have "e \<noteq> Empty" using e ne by auto
  then have "\<not> every_Boolean (A' @ c # M @ d # rev B')"
    using e by (auto simp: every_Boolean_def list_all_iff)
  then show ?thesis using s1 s2 by (simp add: checkVersionContinuity_def)
qed

lemma semVer_of_interior_hole:
  assumes ne: "[] \<notin> set (a @ x # m @ y # b)" and x: "x \<in> P" and y: "y \<in> P"
    and h: "\<not> set m \<subseteq> P"
  shows "semVer_of (presence (a @ x # m @ y # b) P) =
     Some (join '' || '' (map (\<lambda>release. ''='' @ release)
            (filter (\<lambda>r. r \<in> P) (a @ x # m @ y # b))))"
proof -
  let ?rs = "a @ x # m @ y # b"
  obtain z where z: "z \<in> set m" "z \<notin> P" using h by auto
  have p: "presence ?rs P = presence a P @ Str x # presence m P @ Str y # presence b P"
    using x y by (simp add: presence_def)
  have "Undefined \<in> set (presence m P)" using z by (force simp: presence_def)
  moreover have "Empty \<notin> set (presence ?rs P)" by (auto simp: presence_def)
  ultimately have c: "checkVersionContinuity (presence ?rs P) = Some False"
    unfolding p using ne
    by (intro checkVersionContinuity_gap[where e = Undefined]) auto
  have ev: "\<not> every_Boolean (presence ?rs P)"
    using every_presence[OF ne, of P] z by auto
  have fp: "filter_Boolean (presence ?rs P) = filter (\<lambda>r. r \<in> P) ?rs"
    using filter_presence[OF ne, of P] by simp
  show ?thesis
    unfolding semVer_of_def c
    by (simp only: option.case ev fp if_False if_True not_False_eq_True)
qed

lemma well_formed_ok:
  "well_formed reg vs \<Longrightarrow> v \<in> set vs \<Longrightarrow> reg v = Some dv \<Longrightarrow> version_ok dv"
  unfolding well_formed_def by fastforce

lemma well_formed_same:
  "well_formed reg vs \<Longrightarrow> u \<in> set vs \<Longrightarrow> w \<in> set vs \<Longrightarrow>
   reg u = Some du \<Longrightarrow> reg w = Some dw \<Longrightarrow> same_line du dw"
  unfolding well_formed_def by blast

lemma numbered_line_facts:
  assumes wf: "well_formed reg vs" and v: "v \<in> set vs" "reg v = Some dv"
    and nu: "hasNumberedReleases dv"
  shows "distinct (sort (releases dv))" "[] \<notin> set (sort (releases dv))"
    "currentRelease dv \<in> set (present_releases reg vs (shortName dv))"
    "set (present_releases reg vs (shortName dv)) \<subseteq> set (sort (releases dv))"
    "sort (releases dv) \<noteq> []"
proof -
  have ok: "version_ok dv" using well_formed_ok[OF wf v] .
  have "currentRelease dv \<in> set (sort (releases dv))" using ok nu by (simp add: version_ok_def)
  then show "sort (releases dv) \<noteq> []" by (metis empty_iff empty_set)
  show "distinct (sort (releases dv))" "[] \<notin> set (sort (releases dv))"
    using ok nu by (auto simp: version_ok_def)
  show "currentRelease dv \<in> set (present_releases reg vs (shortName dv))"
    unfolding set_present_releases using v nu by blast
  show "set (present_releases reg vs (shortName dv)) \<subseteq> set (sort (releases dv))"
  proof
    fix r assume "r \<in> set (present_releases reg vs (shortName dv))"
    then obtain u du where u: "u \<in> set vs" "reg u = Some du" "shortName du = shortName dv"
        "hasNumberedReleases du" "r = currentRelease du"
      unfolding set_present_releases by blast
    have "version_ok du" "same_line du dv"
      using well_formed_ok[OF wf u(1,2)] well_formed_same[OF wf u(1) v(1) u(2) v(2)] by blast+
    then have "r \<in> set (releases du)" "sort (releases du) = sort (releases dv)"
      using u by (auto simp: version_ok_def same_line_def)
    then show "r \<in> set (sort (releases dv))" by (metis set_sort)
  qed
qed

text \<open>
  Claim C4. For a version set that covers every known release of a numbered line,
  \<open>convertVersionsToFrontmatter\<close> returns and gives the line \<open>*\<close>. The witness is a line
  whose only known release is its only present release.
\<close>

theorem full_coverage_star:
  assumes "well_formed allVersions versions"
    and "v \<in> set versions" and "allVersions v = Some dv" and "hasNumberedReleases dv"
    and "set (releases dv) \<subseteq> set (present_releases allVersions versions (shortName dv))"
  shows "\<exists>out. convertVersionsToFrontmatter allVersions versions = Some (Inr out) \<and>
               map_of out (shortName dv) = Some ''*''"
proof -
  let ?rs = "sort (releases dv)" and ?P = "set (present_releases allVersions versions (shortName dv))"
  obtain out where out: "convertVersionsToFrontmatter allVersions versions = Some (Inr out)"
      "map_of out (shortName dv) = semVer_of (presence ?rs ?P)"
    using convert_characterised[OF assms(1)] assms(2,3,4) by fastforce
  have ne: "[] \<notin> set ([] @ ?rs @ [])" and rs: "?rs \<noteq> []"
    using numbered_line_facts(2,5)[OF assms(1-4)] by simp_all
  have "semVer_of (presence ([] @ ?rs @ []) ?P) = Some ''*''"
    using semVer_of_window[OF ne rs, of ?P] assms(5) by simp
  then show ?thesis using out by simp
qed

theorem full_coverage_star_witness:
  "\<exists>out. convertVersionsToFrontmatter single_allVersions [''enterprise-server@3.3''] = Some (Inr out) \<and>
         map_of out ''ghes'' = Some ''*''"
  using full_coverage_star[of single_allVersions "[''enterprise-server@3.3'']"
      "''enterprise-server@3.3''"
      "\<lparr>shortName = ''ghes'', hasNumberedReleases = True, releases = [''3.3''], currentRelease = ''3.3''\<rparr>"]
  by (simp add: single_allVersions_def well_formed_def version_ok_def same_line_def
      present_releases_def)

subsection \<open>The order of the releases\<close>

text \<open>
  Line 147 puts the releases of a line in the order of \<open>sort()\<close>, the order of their
  strings by code units, and the array of present releases is laid out in that order.
  The three lemmas below say what the function returns in terms of that order: bounds
  when the present releases are one window of the sorted strings, an enumeration when
  an absent release lies between two present ones there, and in every case an
  expression that, read against the sorted strings, selects the present releases.
\<close>

lemma window_of_sorted_releases:
  assumes "well_formed allVersions versions"
    and "v \<in> set versions" and "allVersions v = Some dv" and "hasNumberedReleases dv"
    and "sort (releases dv) = a @ w @ b"
    and "set (present_releases allVersions versions (shortName dv)) = set w"
    and "a \<noteq> [] \<or> b \<noteq> []"
  shows "\<exists>out. convertVersionsToFrontmatter allVersions versions = Some (Inr out) \<and>
               map_of out (shortName dv) =
                 Some (if a = [] then ''<='' @ last w
                       else if b = [] then ''>='' @ hd w
                       else ''<='' @ last w @ '' '' @ ''>='' @ hd w)"
proof -
  let ?rs = "sort (releases dv)" and ?P = "set (present_releases allVersions versions (shortName dv))"
  obtain out where out: "convertVersionsToFrontmatter allVersions versions = Some (Inr out)"
      "map_of out (shortName dv) = semVer_of (presence ?rs ?P)"
    using convert_characterised[OF assms(1)] assms(2,3,4) by fastforce
  note f = numbered_line_facts[OF assms(1-4)]
  have w: "w \<noteq> []" using f(3) assms(6) by auto
  have ne: "[] \<notin> set (a @ w @ b)" using f(2) assms(5) by simp
  have d: "distinct (a @ w @ b)" using f(1) assms(5) by simp
  have a: "set a \<inter> ?P = {}" and b: "set b \<inter> ?P = {}" and wP: "set w \<subseteq> ?P"
    using d assms(6) by auto
  show ?thesis
    using out semVer_of_window[OF ne w a b wP] assms(5,7) by auto
qed

lemma gap_in_sorted_releases:
  assumes "well_formed allVersions versions"
    and "v \<in> set versions" and "allVersions v = Some dv" and "hasNumberedReleases dv"
    and "sort (releases dv) = a @ x # m @ y # b"
    and "x \<in> set (present_releases allVersions versions (shortName dv))"
    and "y \<in> set (present_releases allVersions versions (shortName dv))"
    and "\<not> set m \<subseteq> set (present_releases allVersions versions (shortName dv))"
  shows "\<exists>out. convertVersionsToFrontmatter allVersions versions = Some (Inr out) \<and>
               map_of out (shortName dv) =
                 Some (join '' || '' (map (\<lambda>release. ''='' @ release)
                   (filter (\<lambda>r. r \<in> set (present_releases allVersions versions (shortName dv)))
                      (sort (releases dv)))))"
proof -
  let ?rs = "sort (releases dv)" and ?P = "set (present_releases allVersions versions (shortName dv))"
  obtain out where out: "convertVersionsToFrontmatter allVersions versions = Some (Inr out)"
      "map_of out (shortName dv) = semVer_of (presence ?rs ?P)"
    using convert_characterised[OF assms(1)] assms(2,3,4) by fastforce
  have ne: "[] \<notin> set (a @ x # m @ y # b)"
    using numbered_line_facts(2)[OF assms(1-4)] assms(5) by simp
  show ?thesis
    using out semVer_of_interior_hole[OF ne assms(6,7,8)] assms(5) by simp
qed

lemma expression_in_sort_order:
  assumes "well_formed allVersions versions"
    and "v \<in> set versions" and "allVersions v = Some dv" and "hasNumberedReleases dv"
    and "\<forall>r\<in>set (releases dv). CHR '' '' \<notin> set r"
  shows "\<exists>out e. convertVersionsToFrontmatter allVersions versions = Some (Inr out) \<and>
               map_of out (shortName dv) = Some e \<and>
               evaluate (sort (releases dv)) e =
                 filter (\<lambda>r. r \<in> set (present_releases allVersions versions (shortName dv)))
                   (sort (releases dv))"
proof -
  let ?rs = "sort (releases dv)" and ?P = "set (present_releases allVersions versions (shortName dv))"
  obtain out where out: "convertVersionsToFrontmatter allVersions versions = Some (Inr out)"
      "map_of out (shortName dv) = semVer_of (presence ?rs ?P)"
    using convert_characterised[OF assms(1)] assms(2,3,4) by fastforce
  note f = numbered_line_facts[OF assms(1-4)]
  have "set ?rs \<inter> ?P \<noteq> {}" using f(3,4) by blast
  then obtain a w b where dec: "?rs = a @ w @ b" "w \<noteq> []" "set a \<inter> ?P = {}" "set b \<inter> ?P = {}"
      "hd w \<in> ?P" "last w \<in> ?P"
    using window_exists[of ?rs ?P] by blast
  have ne: "[] \<notin> set (a @ w @ b)" using f(2) dec(1) by simp
  have d: "distinct (a @ w @ b)" using f(1) dec(1) by simp
  have sp: "\<forall>r\<in>set (a @ w @ b). CHR '' '' \<notin> set r" using assms(5) dec(1) by (metis set_sort)
  have "\<exists>e. semVer_of (presence ?rs ?P) = Some e \<and> evaluate ?rs e = filter (\<lambda>r. r \<in> ?P) ?rs"
  proof (cases "set w \<subseteq> ?P")
    case True
    have fw: "filter (\<lambda>r. r \<in> ?P) (a @ w @ b) = w" using filter_window[OF dec(3,4) True] .
    show ?thesis
    proof (cases "a = [] \<and> b = []")
      case True
      then have "semVer_of (presence (a @ w @ b) ?P) = Some ''*''"
        using semVer_of_window[OF ne dec(2,3,4) \<open>set w \<subseteq> ?P\<close>] by simp
      moreover have "evaluate (a @ w @ b) ''*'' = filter (\<lambda>r. r \<in> ?P) (a @ w @ b)"
        using fw True by (simp add: evaluate_star)
      ultimately show ?thesis unfolding dec(1) by blast
    next
      case False
      then have hole: "a \<noteq> [] \<or> b \<noteq> []" by blast
      have spw: "\<forall>r\<in>set w. CHR '' '' \<notin> set r" using sp by simp
      have "semVer_of (presence (a @ w @ b) ?P) =
          Some (join '' '' ((if b \<noteq> [] then [''<='' @ last w] else []) @
                            (if a \<noteq> [] then [''>='' @ hd w] else [])))"
        using semVer_of_window[OF ne dec(2,3,4) \<open>set w \<subseteq> ?P\<close>] False by simp
      moreover note evaluate_bounds[OF d dec(2) spw hole]
      ultimately show ?thesis unfolding dec(1) using fw by metis
    qed
  next
    case False
    let ?ps = "filter (\<lambda>r. r \<in> ?P) (a @ w @ b)"
    have ps: "?ps \<noteq> []" using dec(2,5) by (auto simp: filter_empty_conv)
    have sps: "\<forall>p\<in>set ?ps. CHR '' '' \<notin> set p" using sp by auto
    have "semVer_of (presence (a @ w @ b) ?P) =
        Some (join '' || '' (map (\<lambda>release. ''='' @ release) ?ps))"
      using semVer_of_gaps[OF ne dec(2,3,4,5,6) False] .
    moreover have "evaluate (a @ w @ b) (join '' || '' (map (\<lambda>release. ''='' @ release) ?ps)) =
        filter (\<lambda>r. r \<in> set ?ps) (a @ w @ b)"
      using evaluate_enumeration[OF ps sps] .
    moreover have "filter (\<lambda>r. r \<in> set ?ps) (a @ w @ b) = ?ps"
      by (rule filter_cong) auto
    ultimately show ?thesis unfolding dec(1) by metis
  qed
  then show ?thesis using out by auto
qed

text \<open>
  The order of the strings is not the order of the releases once a number has two
  digits: \<open>3.10\<close> sorts before \<open>3.8\<close>.
\<close>

lemma sort_recent_releases: "sort [''3.8'', ''3.9'', ''3.10''] = [''3.10'', ''3.8'', ''3.9'']"
  by code_simp

text \<open>
  Claim C1. The claim is that the expression of a numbered line, evaluated against the
  line's ordered release list, selects exactly the releases present for the line. On
  the line with the releases 3.8, 3.9 and 3.10, of which only 3.10 is present, the
  array of the code is 3.10 followed by two holes; the code takes the holes for
  releases after the present one and returns \<open><=3.10\<close>, which against the ordered
  list 3.8, 3.9, 3.10 selects all three releases.
\<close>

theorem latest_release_selects_all:
  "convertVersionsToFrontmatter recent_allVersions [''enterprise-server@3.10''] =
     Some (Inr [(''ghes'', ''<=3.10'')]) \<and>
   evaluate [''3.8'', ''3.9'', ''3.10''] ''<=3.10'' = [''3.8'', ''3.9'', ''3.10'']"
  by code_simp

text \<open>
  Claim C2. The claim is that a contiguous window of the ordered release list with a
  hole at an end gives bounds and no enumeration: \<open>>=3.9\<close> for 3.9 and 3.10 out of 3.8,
  3.9, 3.10, and \<open><=3.9\<close> for 3.8 and 3.9. In the order of line 147 the first window
  is 3.10, hole, 3.9 and is enumerated; the second is hole, 3.8, 3.9 and gets the lower
  bound \<open>>=3.8\<close>.
\<close>

theorem contiguous_releases_enumerated:
  "convertVersionsToFrontmatter recent_allVersions
       [''enterprise-server@3.9'', ''enterprise-server@3.10''] =
     Some (Inr [(''ghes'', ''=3.10 || =3.9'')]) \<and>
   convertVersionsToFrontmatter recent_allVersions
       [''enterprise-server@3.8'', ''enterprise-server@3.9''] =
     Some (Inr [(''ghes'', ''>=3.8'')])"
  by code_simp

text \<open>
  Claim C3. The claim is that present releases with an interior hole are enumerated in
  ascending release order: \<open>=3.8 || =3.10\<close> for 3.8 and 3.10 out of 3.8, 3.9, 3.10. In
  the order of line 147 the array is 3.10, 3.8, hole, which has no interior hole, and
  the code returns the bound \<open><=3.8\<close>.
\<close>

theorem interior_hole_bounded:
  "convertVersionsToFrontmatter recent_allVersions
       [''enterprise-server@3.8'', ''enterprise-server@3.10''] =
     Some (Inr [(''ghes'', ''<=3.8'')])"
  by code_simp

section \<open>Properties of the catalog\<close>

lemma versions_of_add_subcategory:
  "set (versions_of (add_subcategory v c rv s) c' s') =
     (if c' = c \<and> s' = s then insert v (set (versions_of rv c s)) else set (versions_of rv c' s'))"
  by (auto simp: versions_of_def add_subcategory_def update_conv' Let_def split: option.splits)

lemma versions_of_add_category:
  "set (versions_of (foldl (add_subcategory v c) rv ss) c' s') =
     set (versions_of rv c' s') \<union> (if c' = c \<and> s' \<in> set ss then {v} else {})"
  by (induction ss arbitrary: rv) (auto simp: versions_of_add_subcategory)

lemma versions_of_add_file:
  "set (versions_of (foldl (add_category v) rv es) c s) =
     set (versions_of rv c s) \<union> {v |e. e \<in> set es \<and> fst e = c \<and> s \<in> set (snd e)}"
proof (induction es arbitrary: rv)
  case Nil
  then show ?case by simp
next
  case (Cons e es)
  have 1: "set (versions_of (foldl (add_category v) rv (e # es)) c s) =
      set (versions_of (add_category v rv e) c s) \<union> {v |e. e \<in> set es \<and> fst e = c \<and> s \<in> set (snd e)}"
    using Cons.IH[of "add_category v rv e"] by simp
  have 2: "set (versions_of (add_category v rv e) c s) =
      set (versions_of rv c s) \<union> (if c = fst e \<and> s \<in> set (snd e) then {v} else {})"
    unfolding add_category_def by (rule versions_of_add_category)
  show ?case unfolding 1 2 by (auto split: if_splits) (metis prod.collapse)+
qed

lemma versions_of_files:
  "set (versions_of (foldl add_file rv fs) c s) = set (versions_of rv c s) \<union> listed_in fs c s"
proof (induction fs arbitrary: rv)
  case Nil
  then show ?case by (simp add: listed_in_def)
next
  case (Cons f fs)
  have 1: "set (versions_of (foldl add_file rv (f # fs)) c s) =
      set (versions_of (add_file rv f) c s) \<union> listed_in fs c s"
    using Cons.IH[of "add_file rv f"] by simp
  have 2: "set (versions_of (add_file rv f) c s) =
      set (versions_of rv c s) \<union> {fst f |e. e \<in> set (snd f) \<and> fst e = c \<and> s \<in> set (snd e)}"
    unfolding add_file_def by (rule versions_of_add_file)
  have 3: "listed_in (f # fs) c s =
      {fst f |e. e \<in> set (snd f) \<and> fst e = c \<and> s \<in> set (snd e)} \<union> listed_in fs c s"
    unfolding listed_in_def by (auto) (metis prod.collapse)+
  show ?case unfolding 1 2 3 by auto
qed

lemma versions_of_getDataFrontmatter:
  "set (versions_of (getDataFrontmatter fs) c s) = listed_in fs c s"
  unfolding getDataFrontmatter_def versions_of_files by (simp add: versions_of_def)

lemma listed_in_set: "set fs = set fs' \<Longrightarrow> listed_in fs c s = listed_in fs' c s"
  by (simp add: listed_in_def)

lemma keys_add_subcategory:
  "fst ` set (add_subcategory v c rv s) = insert c (fst ` set rv)"
  by (simp add: add_subcategory_def Let_def dom_update)

lemma subcategories_add_subcategory:
  "subcategories_of (add_subcategory v c rv s) c' =
     (if c' = c then insert s (subcategories_of rv c) else subcategories_of rv c')"
proof -
  have "\<And>subs vs. map_of subs s = Some vs \<Longrightarrow> s \<in> fst ` set subs"
    by (metis map_of_eq_None_iff option.distinct(1))
  then show ?thesis
    by (auto simp: subcategories_of_def add_subcategory_def Let_def update_conv' dom_update
        split: option.splits)
qed

lemma keys_add_category:
  "fst ` set (foldl (add_subcategory v c) rv ss) =
     (if ss = [] then fst ` set rv else insert c (fst ` set rv))"
  by (induction ss arbitrary: rv) (auto simp: keys_add_subcategory)

lemma subcategories_add_category:
  "subcategories_of (foldl (add_subcategory v c) rv ss) c' =
     (if c' = c then subcategories_of rv c \<union> set ss else subcategories_of rv c')"
  by (induction ss arbitrary: rv) (auto simp: subcategories_add_subcategory)

lemma keys_add_file:
  "fst ` set (foldl (add_category v) rv es) =
     fst ` set rv \<union> {c. \<exists>e\<in>set es. fst e = c \<and> snd e \<noteq> []}"
proof (induction es arbitrary: rv)
  case Nil
  then show ?case by simp
next
  case (Cons e es)
  have 1: "fst ` set (add_category v rv e) =
      (if snd e = [] then fst ` set rv else insert (fst e) (fst ` set rv))"
    unfolding add_category_def by (rule keys_add_category)
  have 2: "fst ` set (foldl (add_category v) rv (e # es)) =
      fst ` set (add_category v rv e) \<union> {c. \<exists>e\<in>set es. fst e = c \<and> snd e \<noteq> []}"
    using Cons.IH[of "add_category v rv e"] by simp
  show ?case unfolding 2 1 by auto
qed

lemma subcategories_add_file:
  "subcategories_of (foldl (add_category v) rv es) c =
     subcategories_of rv c \<union> {s. \<exists>e\<in>set es. fst e = c \<and> s \<in> set (snd e)}"
proof (induction es arbitrary: rv)
  case Nil
  then show ?case by simp
next
  case (Cons e es)
  have 1: "subcategories_of (add_category v rv e) c =
      (if c = fst e then subcategories_of rv (fst e) \<union> set (snd e) else subcategories_of rv c)"
    unfolding add_category_def by (rule subcategories_add_category)
  have 2: "subcategories_of (foldl (add_category v) rv (e # es)) c =
      subcategories_of (add_category v rv e) c \<union> {s. \<exists>e\<in>set es. fst e = c \<and> s \<in> set (snd e)}"
    using Cons.IH[of "add_category v rv e"] by simp
  show ?case unfolding 2 1 by auto
qed

lemma keys_files:
  "fst ` set (foldl add_file rv fs) =
     fst ` set rv \<union> {c. \<exists>f\<in>set fs. \<exists>e\<in>set (snd f). fst e = c \<and> snd e \<noteq> []}"
proof (induction fs arbitrary: rv)
  case Nil
  then show ?case by simp
next
  case (Cons f fs)
  have 1: "fst ` set (add_file rv f) = fst ` set rv \<union> {c. \<exists>e\<in>set (snd f). fst e = c \<and> snd e \<noteq> []}"
    unfolding add_file_def by (rule keys_add_file)
  have 2: "fst ` set (foldl add_file rv (f # fs)) =
      fst ` set (add_file rv f) \<union> {c. \<exists>f\<in>set fs. \<exists>e\<in>set (snd f). fst e = c \<and> snd e \<noteq> []}"
    using Cons.IH[of "add_file rv f"] by simp
  show ?case unfolding 2 1 by auto
qed

lemma subcategories_files:
  "subcategories_of (foldl add_file rv fs) c =
     subcategories_of rv c \<union> {s. \<exists>f\<in>set fs. \<exists>e\<in>set (snd f). fst e = c \<and> s \<in> set (snd e)}"
proof (induction fs arbitrary: rv)
  case Nil
  then show ?case by simp
next
  case (Cons f fs)
  have 1: "subcategories_of (add_file rv f) c =
      subcategories_of rv c \<union> {s. \<exists>e\<in>set (snd f). fst e = c \<and> s \<in> set (snd e)}"
    unfolding add_file_def by (rule subcategories_add_file)
  have 2: "subcategories_of (foldl add_file rv (f # fs)) c =
      subcategories_of (add_file rv f) c \<union>
        {s. \<exists>f\<in>set fs. \<exists>e\<in>set (snd f). fst e = c \<and> s \<in> set (snd e)}"
    using Cons.IH[of "add_file rv f"] by simp
  show ?case unfolding 2 1 by auto
qed

lemma keys_getDataFrontmatter:
  "fst ` set (getDataFrontmatter fs) = {c. \<exists>f\<in>set fs. \<exists>e\<in>set (snd f). fst e = c \<and> snd e \<noteq> []}"
  unfolding getDataFrontmatter_def keys_files by simp

lemma subcategories_getDataFrontmatter:
  "subcategories_of (getDataFrontmatter fs) c =
     {s. \<exists>f\<in>set fs. \<exists>e\<in>set (snd f). fst e = c \<and> s \<in> set (snd e)}"
  unfolding getDataFrontmatter_def subcategories_files by (simp add: subcategories_of_def)

lemma obj_rebuild:
  "distinct (map fst a) \<Longrightarrow> map (\<lambda>k. (k, the (map_of a k))) (map fst a) = a"
proof (induction a)
  case Nil
  then show ?case by simp
next
  case (Cons p a)
  obtain k0 v0 where p: "p = (k0, v0)" by (cases p)
  have k0: "k0 \<notin> set (map fst a)" and d: "distinct (map fst a)" using Cons.prems p by auto
  have "\<And>k. k \<in> set (map fst a) \<Longrightarrow> map_of (p # a) k = map_of a k"
    using k0 p by auto
  then have "map (\<lambda>k. (k, the (map_of (p # a) k))) (map fst a) =
      map (\<lambda>k. (k, the (map_of a k))) (map fst a)"
    by (intro map_cong refl) simp
  also have "\<dots> = a" using Cons.IH[OF d] .
  finally have "map (\<lambda>k. (k, the (map_of (p # a) k))) (map fst a) = a" .
  moreover have "the (map_of (p # a) k0) = v0" using p by simp
  ultimately show ?case using p by simp
qed

lemma sorted_obj_eqI:
  assumes "sorted (map fst a)" "distinct (map fst a)" "sorted (map fst b)" "distinct (map fst b)"
    and m: "map_of a = map_of b"
  shows "a = b"
proof -
  have "set a = set b" using map_of_inject_set[OF assms(2,4)] m by simp
  then have "set (map fst a) = set (map fst b)" by simp
  then have k: "map fst a = map fst b"
    using sorted_distinct_set_unique[OF assms(1,2,3,4)] by simp
  have "a = map (\<lambda>k. (k, the (map_of a k))) (map fst a)" using obj_rebuild[OF assms(2)] by simp
  also have "\<dots> = map (\<lambda>k. (k, the (map_of b k))) (map fst b)" using k m by simp
  also have "\<dots> = b" using obj_rebuild[OF assms(4)] .
  finally show ?thesis .
qed

lemma well_formed_set: "set vs' = set vs \<Longrightarrow> well_formed reg vs' = well_formed reg vs"
  by (simp add: well_formed_def)

lemma convert_set:
  assumes wf: "well_formed reg vs" and eq: "set vs' = set vs"
  shows "convertVersionsToFrontmatter reg vs' = convertVersionsToFrontmatter reg vs"
proof -
  have wf': "well_formed reg vs'" using wf well_formed_set[OF eq, of reg] by simp
  have pr: "\<And>k. set (present_releases reg vs' k) = set (present_releases reg vs k)"
    unfolding set_present_releases eq ..
  have lk: "line_keys reg vs' = line_keys reg vs" unfolding line_keys_def eq ..
  let ?val = "\<lambda>dv. if hasNumberedReleases dv
            then semVer_of (presence (sort (releases dv)) (set (present_releases reg vs (shortName dv))))
            else Some ''*''"
  obtain out where out: "convertVersionsToFrontmatter reg vs = Some (Inr out)"
      "sorted (map fst out)" "distinct (map fst out)" "fst ` set out = line_keys reg vs"
      "\<forall>v\<in>set vs. \<forall>dv. reg v = Some dv \<longrightarrow> map_of out (shortName dv) = ?val dv"
    using convert_characterised[OF wf] by blast
  obtain out' where out': "convertVersionsToFrontmatter reg vs' = Some (Inr out')"
      "sorted (map fst out')" "distinct (map fst out')" "fst ` set out' = line_keys reg vs"
      "\<forall>v\<in>set vs. \<forall>dv. reg v = Some dv \<longrightarrow> map_of out' (shortName dv) = ?val dv"
    using convert_characterised[OF wf'] unfolding pr lk eq by blast
  have "map_of out' = map_of out"
  proof
    fix k
    show "map_of out' k = map_of out k"
    proof (cases "k \<in> line_keys reg vs")
      case True
      then obtain v dv where "v \<in> set vs" "reg v = Some dv" "k = shortName dv"
        unfolding line_keys_def by blast
      then show ?thesis using out(5) out'(5) by simp
    next
      case False
      then have "map_of out k = None" "map_of out' k = None"
        using out(4) out'(4) by (simp_all add: map_of_eq_None_iff)
      then show ?thesis by simp
    qed
  qed
  then have "out' = out" using sorted_obj_eqI[OF out'(2,3) out(2,3)] by simp
  then show ?thesis using out(1) out'(1) by simp
qed

text \<open>
  Claim C8. Processing the schema files in another order gives a catalog with the same
  categories, the same subcategories under each category and the same set of versions
  for each subcategory, and, over a well-formed table, the same versions frontmatter
  for each subcategory. The array of versions itself lists them in the order of
  processing.
\<close>

theorem catalog_order_independent:
  assumes "mset fileList' = mset fileList"
  shows "fst ` set (getDataFrontmatter fileList') = fst ` set (getDataFrontmatter fileList) \<and>
         subcategories_of (getDataFrontmatter fileList') category =
           subcategories_of (getDataFrontmatter fileList) category \<and>
         set (versions_of (getDataFrontmatter fileList') category subcategory) =
           set (versions_of (getDataFrontmatter fileList) category subcategory) \<and>
         (well_formed allVersions (versions_of (getDataFrontmatter fileList) category subcategory) \<longrightarrow>
            convertVersionsToFrontmatter allVersions
              (versions_of (getDataFrontmatter fileList') category subcategory) =
            convertVersionsToFrontmatter allVersions
              (versions_of (getDataFrontmatter fileList) category subcategory))"
proof -
  have eq: "set fileList' = set fileList" using assms by (metis set_mset_mset)
  have 1: "fst ` set (getDataFrontmatter fileList') = fst ` set (getDataFrontmatter fileList)"
    unfolding keys_getDataFrontmatter eq ..
  have 2: "subcategories_of (getDataFrontmatter fileList') category =
      subcategories_of (getDataFrontmatter fileList) category"
    unfolding subcategories_getDataFrontmatter eq ..
  have 3: "set (versions_of (getDataFrontmatter fileList') category subcategory) =
      set (versions_of (getDataFrontmatter fileList) category subcategory)"
    unfolding versions_of_getDataFrontmatter using eq by (rule listed_in_set)
  show ?thesis using 1 2 3 convert_set by blast
qed

theorem catalog_order_independent_witness:
  "set (versions_of (getDataFrontmatter (rev example_files)) ''actions'' ''artifacts'') =
     {''free-pro-team@latest'', ''enterprise-server@3.4'', ''enterprise-server@3.3''} \<and>
   convertVersionsToFrontmatter example_allVersions
     (versions_of (getDataFrontmatter (rev example_files)) ''actions'' ''artifacts'') =
   Some (Inr [(''fpt'', ''*''), (''ghes'', ''<=3.4'')])"
proof -
  have 1: "mset (rev example_files) = mset example_files" by simp
  have 2: "versions_of (getDataFrontmatter example_files) ''actions'' ''artifacts'' =
      [''free-pro-team@latest'', ''enterprise-server@3.4'', ''enterprise-server@3.3'']"
    by (simp add: example_files_def getDataFrontmatter_def add_file_def add_category_def
        add_subcategory_def versions_of_def)
  have 3: "well_formed example_allVersions
      [''free-pro-team@latest'', ''enterprise-server@3.4'', ''enterprise-server@3.3'']"
    by (simp add: example_allVersions_def ghes_def well_formed_def version_ok_def same_line_def)
  have 4: "convertVersionsToFrontmatter example_allVersions
      [''free-pro-team@latest'', ''enterprise-server@3.4'', ''enterprise-server@3.3''] =
      Some (Inr [(''fpt'', ''*''), (''ghes'', ''<=3.4'')])"
    by code_simp
  show ?thesis
    using catalog_order_independent[OF 1, of "''actions''" "''artifacts''" example_allVersions]
      2 3 4 by auto
qed

section \<open>Properties of the index and page updates\<close>

lemma indexOf_None: "y \<notin> set xs \<Longrightarrow> indexOf xs y = None"
  by (induction xs) auto

text \<open>
  Removing a reference that the children do not contain removes their last element.
\<close>

lemma change_children_absent:
  assumes "map_of data ''children'' = Some (JArr children)"
    and "JStr (''/'' @ filename) \<notin> set children"
  shows "change_children data Remove filename =
           Inr (AList.update ''children'' (JArr (butlast children)) data)"
  using assms by (simp add: change_children_def indexOf_None)

text \<open>
  For a new page in a directory that does not exist yet, the only calls the loop waits
  for are \<open>mkdirp\<close> and the write of the page.
\<close>

lemma page_steps_new_directory:
  assumes "\<not> existsSync s file" and "\<not> existsSync s (dirname file)"
  shows "page_steps s file =
           [Await (Mkdirp (dirname file)), Start (UpdateIndexFile (dirname file) Add),
            Await (WriteFile file), Start (UpdateIndexFile file Add)]"
  using assms by (simp add: page_steps_def)

text \<open>
  Claim C5. The claim is that removing a reference the index does not list leaves the
  children unchanged. \<open>indexOf\<close> answers \<open>-1\<close> for a missing reference and
  \<open>splice(-1, 1)\<close> removes the last element: on the example tree, whose index lists
  \<open>/actions\<close> and \<open>/apps\<close>, removing the page \<open>gists.md\<close> drops \<open>/apps\<close>.
\<close>

theorem remove_absent_reference_drops_last_child:
  "updateIndexFile plain_matter [] example_tree [''content'', ''rest'', ''gists.md''] Remove JNull =
     Inr (example_tree\<lparr>files :=
       [([''content'', ''rest'', ''index.md''],
         Some ([(''title'', JStr ''REST API''), (''children'', JArr [JStr ''/actions''])],
               ''Intro.''))]\<rparr>)"
  by (simp add: updateIndexFile_def example_tree_def rest_index_def plain_matter_def
      existsSync_def readFile_def writeFile_def is_dir_def dirname_def basename_def
      basename_ext_def change_children_def Let_def)

text \<open>
  Claim C9. The claim is that the index update has completed when the page is written.
  For a page whose directory is missing the loop waits for \<open>mkdirp\<close>, starts the
  update of the parent index without waiting for it, and then writes the page; the
  first removal loop waits for the same function at both of its calls.
\<close>

theorem add_starts_index_update_without_waiting:
  "page_steps example_tree [''content'', ''rest'', ''actions'', ''artifacts.md''] =
     [Await (Mkdirp [''content'', ''rest'', ''actions'']),
      Start (UpdateIndexFile [''content'', ''rest'', ''actions''] Add),
      Await (WriteFile [''content'', ''rest'', ''actions'', ''artifacts.md'']),
      Start (UpdateIndexFile [''content'', ''rest'', ''actions'', ''artifacts.md''] Add)]"
  by (simp add: page_steps_def example_tree_def existsSync_def is_dir_def dirname_def)

lemma readFile_Inr: "readFile s p = Inr t \<longleftrightarrow> map_of (files s) p = Some t"
  by (auto simp: readFile_def split: option.splits)

lemma readFile_writeFile:
  "writeFile s p t = Inr s' \<Longrightarrow> readFile s' q = (if q = p then Inr t else readFile s q)"
  by (auto simp: writeFile_def readFile_def is_dir_def update_conv' split: if_splits)

lemma dirs_writeFile: "writeFile s p t = Inr s' \<Longrightarrow> dirs s' = dirs s"
  by (auto simp: writeFile_def split: if_splits)

lemma writeFile_existing:
  "map_of (files s) p = Some t0 \<Longrightarrow>
   writeFile s p t = Inr (s\<lparr>files := AList.update p t (files s)\<rparr>)"
  by (simp add: writeFile_def)

text \<open>
  Claim C10. When the index already lists the reference of the target, \<open>add\<close> appends
  it once more: the index is rewritten with the reference occurring one more time, so
  at least twice.
\<close>

theorem add_appends_again:
  assumes "readFile s (dirname file @ [''index.md'']) = Inr t"
    and "matter gm t = Some (data, content)"
    and "map_of data ''children'' = Some (JArr children)"
    and "JStr (''/'' @ basename_ext file ''.md'') \<in> set children"
  shows "\<exists>s'. updateIndexFile gm dflt s file Add versions = Inr s' \<and>
           readFile s' (dirname file @ [''index.md'']) =
             Inr (stringify gm content
                    (AList.update ''children''
                       (JArr (children @ [JStr (''/'' @ basename_ext file ''.md'')])) data)) \<and>
           count_list (children @ [JStr (''/'' @ basename_ext file ''.md'')])
                      (JStr (''/'' @ basename_ext file ''.md'')) =
             Suc (count_list children (JStr (''/'' @ basename_ext file ''.md''))) \<and>
           2 \<le> count_list (children @ [JStr (''/'' @ basename_ext file ''.md'')])
                      (JStr (''/'' @ basename_ext file ''.md''))"
proof -
  let ?ix = "dirname file @ [''index.md'']" and ?ref = "JStr (''/'' @ basename_ext file ''.md'')"
  let ?data = "AList.update ''children'' (JArr (children @ [?ref])) data"
  have f: "map_of (files s) ?ix = Some t" using assms(1) by (simp add: readFile_Inr)
  then have ex: "existsSync s ?ix" by (simp add: existsSync_def)
  have w: "writeFile s ?ix (stringify gm content ?data) =
      Inr (s\<lparr>files := AList.update ?ix (stringify gm content ?data) (files s)\<rparr>)"
    using writeFile_existing[OF f] .
  have u: "updateIndexFile gm dflt s file Add versions =
      Inr (s\<lparr>files := AList.update ?ix (stringify gm content ?data) (files s)\<rparr>)"
    using ex assms(1,2,3) w by (simp add: updateIndexFile_def change_children_def Let_def)
  have "0 < count_list children ?ref" using assms(4) by (metis count_list_0_iff gr0I)
  then show ?thesis using u readFile_writeFile[OF w] by simp
qed

theorem add_appends_again_witness:
  "\<exists>s'. updateIndexFile plain_matter [] example_tree [''content'', ''rest'', ''apps.md''] Add JNull = Inr s' \<and>
     readFile s' [''content'', ''rest'', ''index.md''] =
       Inr (Some ([(''title'', JStr ''REST API''),
                   (''children'', JArr [JStr ''/actions'', JStr ''/apps'', JStr ''/apps''])],
                  ''Intro.''))"
  using add_appends_again[of example_tree "[''content'', ''rest'', ''apps.md'']" rest_index
      plain_matter "[(''title'', JStr ''REST API''), (''children'', JArr [JStr ''/actions'', JStr ''/apps''])]"
      "''Intro.''" "[JStr ''/actions'', JStr ''/apps'']" "[]" JNull]
  by (simp add: example_tree_def rest_index_def plain_matter_def readFile_def dirname_def
      basename_ext_def basename_def)

section \<open>Properties of the reconciliation\<close>

lemma js_includes_append: "js_includes (a @ sub @ b) sub"
proof (induction a)
  case Nil
  show ?case
  proof (cases "sub @ b")
    case Nil
    then show ?thesis by simp
  next
    case (Cons c cs)
    have "take (length sub) (sub @ b) = sub" by simp
    then show ?thesis using Cons by simp
  qed
next
  case (Cons c a)
  then show ?case by simp
qed

lemma join_snoc: "join sep (xs @ [x]) = (if xs = [] then x else join sep xs @ sep @ x)"
  by (induction sep xs rule: join.induct) auto

lemma index_like_includes: "index_like p \<Longrightarrow> js_includes (path_text p) ''index.md''"
proof -
  assume "index_like p"
  then obtain q where p: "p = q @ [''index.md'']"
    unfolding index_like_def by (metis append_butlast_last_id)
  show ?thesis
  proof (cases "q = []")
    case True
    then show ?thesis using p js_includes_append[of "[]" "''index.md''" "[]"]
      by (simp add: path_text_def)
  next
    case False
    then have "path_text p = (join ''/'' q @ ''/'') @ ''index.md'' @ []"
      using p by (simp add: path_text_def join_snoc)
    then show ?thesis using js_includes_append by metis
  qed
qed

lemma shrinks_refl: "shrinks s s"
  by (simp add: shrinks_def)

lemma shrinks_trans: "shrinks s s' \<Longrightarrow> shrinks s' s'' \<Longrightarrow> shrinks s s''"
  unfolding shrinks_def by metis

lemma map_of_unlink:
  "unlink s p = Inr s' \<Longrightarrow> map_of (files s') q = (if q = p then None else map_of (files s) q)"
  by (auto simp: unlink_def delete_conv' split: option.splits)

lemma map_of_filter_fst:
  "map_of (filter (\<lambda>e. Q (fst e)) al) k = (if Q k then map_of al k else None)"
  by (induction al) auto

lemma map_of_rimraf:
  "map_of (files (rimraf s d)) q = (if prefix d q then None else map_of (files s) q)"
  using map_of_filter_fst[of "\<lambda>p. \<not> prefix d p" "files s" q] by (simp add: rimraf_def)

lemma map_of_writeFile:
  "writeFile s p t = Inr s' \<Longrightarrow> map_of (files s') q = (if q = p then Some t else map_of (files s) q)"
  by (auto simp: writeFile_def update_conv' split: if_splits)

lemma files_mkdirp: "mkdirp s d = Inr s' \<Longrightarrow> files s' = files s"
  by (auto simp: mkdirp_def split: if_splits)

lemma updateIndexFile_writes:
  assumes "updateIndexFile gm dflt s file change versions = Inr s'"
  shows "\<exists>data content data'.
      (if existsSync s (dirname file @ [''index.md''])
       then (\<exists>t. map_of (files s) (dirname file @ [''index.md'']) = Some t \<and>
                 matter gm t = Some (data, content))
       else (data, content) = newIndexFile dflt (basename (dirname file)) versions) \<and>
      change_children data change (basename_ext file ''.md'') = Inr data' \<and>
      writeFile s (dirname file @ [''index.md'']) (stringify gm content data') = Inr s'"
  using assms unfolding updateIndexFile_def Let_def
  by (auto simp: readFile_Inr split: if_splits sum.splits option.splits prod.splits)

lemma updateIndexFile_frame:
  assumes "updateIndexFile gm dflt s file change versions = Inr s'"
    and "q \<noteq> dirname file @ [''index.md'']"
  shows "map_of (files s') q = map_of (files s) q"
  using updateIndexFile_writes[OF assms(1)] map_of_writeFile assms(2) by fastforce

lemma updateIndexFile_shrinks:
  assumes "updateIndexFile gm dflt s file change versions = Inr s'"
  shows "shrinks s s'"
  unfolding shrinks_def
proof (intro allI impI)
  fix p assume "\<not> index_like p"
  then have "p \<noteq> dirname file @ [''index.md'']" by (auto simp: index_like_def)
  then show "map_of (files s') p = None \<or> map_of (files s') p = map_of (files s) p"
    using updateIndexFile_frame[OF assms] by simp
qed

lemma unlink_shrinks: "unlink s p = Inr s' \<Longrightarrow> shrinks s s'"
  by (simp add: shrinks_def map_of_unlink)

lemma rimraf_shrinks: "shrinks s (rimraf s d)"
  by (simp add: shrinks_def map_of_rimraf)


lemma same_pages_refl: "same_pages s s"
  by (simp add: same_pages_def)

lemma same_pages_trans: "same_pages s s' \<Longrightarrow> same_pages s' s'' \<Longrightarrow> same_pages s s''"
  by (simp add: same_pages_def)

lemma same_pages_shrinks: "same_pages s s' \<Longrightarrow> shrinks s s'"
  by (simp add: same_pages_def shrinks_def)

lemma index_path_like: "index_like (d @ [''index.md''])"
  by (simp add: index_like_def)

lemma same_pages_writeFile:
  "writeFile s p t = Inr s' \<Longrightarrow> index_like p \<Longrightarrow> same_pages s s'"
  using map_of_writeFile[of s p t s'] by (auto simp: same_pages_def)

lemma same_pages_mkdirp: "mkdirp s d = Inr s' \<Longrightarrow> same_pages s s'"
  using files_mkdirp[of s d s'] by (simp add: same_pages_def)

subsection \<open>The running updates\<close>

text \<open>A step of a running update changes index pages only, and no directory.\<close>

lemma task_step_pages: "same_pages (tree p) (tree (task_step gm p i))"
  unfolding task_step_def Let_def
  by (auto simp: same_pages_refl split: task.splits sum.splits option.splits prod.splits
      intro: same_pages_writeFile[OF _ index_path_like])

lemma task_step_dirs: "dirs (tree (task_step gm p i)) = dirs (tree p)"
  unfolding task_step_def Let_def
  by (auto split: task.splits sum.splits option.splits prod.splits dest: dirs_writeFile)

lemma task_step_turns: "turns (task_step gm p i) = turns p"
  unfolding task_step_def Let_def
  by (auto split: task.splits sum.splits option.splits prod.splits)

lemma task_step_idle: "running p = [] \<Longrightarrow> task_step gm p i = p"
  by (simp add: task_step_def)

lemma later_pages: "same_pages (tree p) (tree (later gm p steps))"
  unfolding later_def
proof (induction steps arbitrary: p)
  case Nil
  show ?case by (simp add: same_pages_refl)
next
  case (Cons i steps)
  show ?case using same_pages_trans[OF task_step_pages Cons] by simp
qed

lemma later_dirs: "dirs (tree (later gm p steps)) = dirs (tree p)"
  unfolding later_def by (induction steps arbitrary: p) (simp_all add: task_step_dirs)

lemma later_turns: "turns (later gm p steps) = turns p"
  unfolding later_def by (induction steps arbitrary: p) (simp_all add: task_step_turns)

lemma later_idle: "running p = [] \<Longrightarrow> later gm p steps = p"
  unfolding later_def by (induction steps) (simp_all add: task_step_idle)

lemma pause_later: "\<exists>steps ts. pause gm p = (later gm p steps)\<lparr>turns := ts\<rparr>"
proof (cases "turns p")
  case Nil
  have "p = (later gm p [])\<lparr>turns := turns p\<rparr>" by (simp add: later_def)
  then show ?thesis using Nil unfolding pause_def by (metis list.simps(4))
next
  case (Cons steps rest)
  then show ?thesis unfolding pause_def later_def by auto
qed

lemma pause_pages: "same_pages (tree p) (tree (pause gm p))"
proof -
  obtain steps ts where "pause gm p = (later gm p steps)\<lparr>turns := ts\<rparr>" using pause_later by blast
  then show ?thesis using later_pages[of p gm steps] by simp
qed

lemma pause_dirs: "dirs (tree (pause gm p)) = dirs (tree p)"
proof -
  obtain steps ts where "pause gm p = (later gm p steps)\<lparr>turns := ts\<rparr>" using pause_later by blast
  then show ?thesis using later_dirs[of gm p steps] by simp
qed

lemma pause_idle: "running p = [] \<Longrightarrow> tree (pause gm p) = tree p \<and> memo (pause gm p) = memo p \<and>
    running (pause gm p) = []"
proof -
  assume r: "running p = []"
  obtain steps ts where "pause gm p = (later gm p steps)\<lparr>turns := ts\<rparr>" using pause_later by blast
  then show ?thesis using later_idle[OF r, of gm steps] r by simp
qed

subsection \<open>The cache\<close>

lemma matter_cached_bodies:
  "memo_bodies gm cache \<Longrightarrow> matter_cached gm cache t = Some (data', content) \<Longrightarrow>
   \<exists>data. matter gm t = Some (data, content)"
  unfolding memo_bodies_def matter_cached_def by (auto split: option.splits)

lemma memo_bodies_update:
  "memo_bodies gm cache \<Longrightarrow> matter gm t = Some (data, content) \<Longrightarrow>
   memo_bodies gm (AList.update t (data', content) cache)"
  unfolding memo_bodies_def by (auto simp: update_conv')

lemma memo_bodies_empty: "memo_bodies gm []"
  by (simp add: memo_bodies_def)

lemma task_step_memo_bodies:
  assumes "memo_bodies gm (memo p)"
  shows "memo_bodies gm (memo (task_step gm p i))"
proof -
  have u: "\<And>t d c d'. matter_cached gm (memo p) t = Some (d, c) \<Longrightarrow>
      memo_bodies gm (AList.update t (d', c) (memo p))"
    using matter_cached_bodies[OF assms] memo_bodies_update[OF assms] by blast
  show ?thesis
    unfolding task_step_def Let_def using assms u
    by (auto split: task.splits sum.splits option.splits prod.splits)
qed

lemma later_memo_bodies: "memo_bodies gm (memo p) \<Longrightarrow> memo_bodies gm (memo (later gm p steps))"
  unfolding later_def by (induction steps arbitrary: p) (simp_all add: task_step_memo_bodies)

lemma pause_memo_bodies: "memo_bodies gm (memo p) \<Longrightarrow> memo_bodies gm (memo (pause gm p))"
proof -
  assume m: "memo_bodies gm (memo p)"
  obtain steps ts where "pause gm p = (later gm p steps)\<lparr>turns := ts\<rparr>" using pause_later by blast
  then show ?thesis using later_memo_bodies[OF m, of steps] by simp
qed

subsection \<open>Waiting for an operation\<close>

lemma same_pages_but_weaken: "same_pages s s' \<Longrightarrow> same_pages_but file s s'"
  by (simp add: same_pages_def same_pages_but_def)

lemma same_pages_but_refl: "same_pages_but file s s"
  by (simp add: same_pages_but_def)

lemma same_pages_but_trans:
  "same_pages_but file s s' \<Longrightarrow> same_pages_but file s' s'' \<Longrightarrow> same_pages_but file s s''"
  by (simp add: same_pages_but_def)

lemma same_pages_but_writeFile: "writeFile s file t = Inr s' \<Longrightarrow> same_pages_but file s s'"
  using map_of_writeFile[of s "file" t s'] by (simp add: same_pages_but_def)

lemma awaited_memo_bodies:
  assumes "memo_bodies gm (memo p)" and "awaited gm op p = (p', e)"
  shows "memo_bodies gm (memo p')"
proof -
  have 1: "memo_bodies gm (memo (pause gm p))" using pause_memo_bodies[OF assms(1)] .
  then have 2: "memo_bodies gm (memo (pause gm (pause gm p)))" using pause_memo_bodies by blast
  have 3: "\<And>s'. memo_bodies gm (memo (pause gm ((pause gm p)\<lparr>tree := s'\<rparr>)))"
    using pause_memo_bodies[of gm "(pause gm p)\<lparr>tree := s'\<rparr>" for s'] 1 by simp
  show ?thesis using assms(2) 2 3 unfolding awaited_def Let_def by (auto split: sum.splits)
qed

lemma awaited_frame:
  assumes op: "\<And>s s'. op s = Inr s' \<Longrightarrow> same_pages_but file s s'"
    and a: "awaited gm op p = (p', e)"
  shows "same_pages_but file (tree p) (tree p')"
proof -
  let ?p1 = "pause gm p"
  have 1: "same_pages_but file (tree p) (tree ?p1)"
    using same_pages_but_weaken[OF pause_pages] .
  show ?thesis
  proof (cases "op (tree ?p1)")
    case (Inl x)
    then have "p' = pause gm ?p1" using a unfolding awaited_def Let_def by simp
    then show ?thesis
      using same_pages_but_trans[OF 1 same_pages_but_weaken[OF pause_pages]] by simp
  next
    case (Inr s')
    then have p': "p' = pause gm (?p1\<lparr>tree := s'\<rparr>)" using a unfolding awaited_def Let_def by simp
    have 2: "same_pages_but file (tree ?p1) s'" using op[OF Inr] .
    have 3: "same_pages_but file s' (tree p')"
      using same_pages_but_weaken[OF pause_pages[of "?p1\<lparr>tree := s'\<rparr>" gm]] p' by simp
    show ?thesis using same_pages_but_trans[OF same_pages_but_trans[OF 1 2] 3] .
  qed
qed


lemma awaited_written:
  assumes a: "awaited gm (\<lambda>s. writeFile s file t) p = (p', None)" and ni: "\<not> index_like file"
  shows "map_of (files (tree p')) file = Some t"
proof -
  let ?p1 = "pause gm p"
  from a obtain s' where w: "writeFile (tree ?p1) file t = Inr s'"
    and p': "p' = pause gm (?p1\<lparr>tree := s'\<rparr>)"
    unfolding awaited_def Let_def by (auto split: sum.splits)
  have "map_of (files s') file = Some t" using map_of_writeFile[OF w] by simp
  moreover have "same_pages s' (tree p')" using pause_pages[of "?p1\<lparr>tree := s'\<rparr>" gm] p' by simp
  ultimately show ?thesis using ni unfolding same_pages_def by simp
qed

lemma awaited_idle:
  assumes r: "running p = []" and a: "awaited gm op p = (p', e)"
  shows "running p' = [] \<and> memo p' = memo p \<and>
         (case op (tree p) of Inl x \<Rightarrow> tree p' = tree p \<and> e = Some x
                            | Inr s' \<Rightarrow> tree p' = s' \<and> e = None)"
proof -
  let ?p1 = "pause gm p"
  note i1 = pause_idle[OF r, of gm]
  show ?thesis
  proof (cases "op (tree p)")
    case (Inl x)
    then have "p' = pause gm ?p1" "e = Some x" using a i1 unfolding awaited_def Let_def by auto
    then show ?thesis using pause_idle[of ?p1 gm] i1 Inl by simp
  next
    case (Inr s')
    then have "p' = pause gm (?p1\<lparr>tree := s'\<rparr>)" "e = None"
      using a i1 unfolding awaited_def Let_def by auto
    then show ?thesis using pause_idle[of "?p1\<lparr>tree := s'\<rparr>" gm] i1 Inr by simp
  qed
qed

lemma start_tree [simp]: "tree (start_updateIndexFile gm dflt p file change versions) = tree p"
  unfolding start_updateIndexFile_def by (auto split: prod.splits sum.splits)

lemma start_memo [simp]: "memo (start_updateIndexFile gm dflt p file change versions) = memo p"
  unfolding start_updateIndexFile_def by (auto split: prod.splits sum.splits)

lemma awaited_pages:
  assumes op: "\<And>s s'. op s = Inr s' \<Longrightarrow> same_pages s s'"
    and a: "awaited gm op p = (p', e)"
  shows "same_pages (tree p) (tree p')"
proof (cases "op (tree (pause gm p))")
  case (Inl x)
  then have "p' = pause gm (pause gm p)" using a unfolding awaited_def Let_def by simp
  then show ?thesis using same_pages_trans[OF pause_pages pause_pages] by simp
next
  case (Inr s')
  then have p': "p' = pause gm ((pause gm p)\<lparr>tree := s'\<rparr>)" using a unfolding awaited_def Let_def by simp
  have "same_pages s' (tree p')" using pause_pages[of "(pause gm p)\<lparr>tree := s'\<rparr>" gm] p' by simp
  then show ?thesis using same_pages_trans[OF same_pages_trans[OF pause_pages op[OF Inr]]] by blast
qed

lemma readFile_same:
  "map_of (files s') q = map_of (files s) q \<Longrightarrow> dirs s' = dirs s \<Longrightarrow> readFile s' q = readFile s q"
  by (simp add: readFile_def is_dir_def)

lemma awaited_read_facts:
  assumes "awaited_read gm p file = (r, p1)"
  shows "same_pages (tree p) (tree p1)" and "dirs (tree p1) = dirs (tree p)"
    and "memo_bodies gm (memo p) \<Longrightarrow> memo_bodies gm (memo p1)"
    and "\<not> index_like file \<Longrightarrow> r = readFile (tree p) file"
proof -
  have p1: "p1 = pause gm (pause gm p)" and r: "r = readFile (tree (pause gm p)) file"
    using assms unfolding awaited_read_def Let_def by auto
  show "same_pages (tree p) (tree p1)"
    unfolding p1 using same_pages_trans[OF pause_pages pause_pages] .
  show "dirs (tree p1) = dirs (tree p)" unfolding p1 by (simp add: pause_dirs)
  show "memo_bodies gm (memo p) \<Longrightarrow> memo_bodies gm (memo p1)"
    unfolding p1 using pause_memo_bodies by blast
  show "\<not> index_like file \<Longrightarrow> r = readFile (tree p) file"
    unfolding r using pause_pages[of p gm] pause_dirs[of gm p]
    by (intro readFile_same) (simp_all add: same_pages_def)
qed

lemma awaited_read_idle:
  assumes "running p = []" and "awaited_read gm p file = (r, p1)"
  shows "r = readFile (tree p) file \<and> tree p1 = tree p \<and> memo p1 = memo p \<and> running p1 = []"
proof -
  have p1: "p1 = pause gm (pause gm p)" and r: "r = readFile (tree (pause gm p)) file"
    using assms(2) unfolding awaited_read_def Let_def by auto
  note i = pause_idle[OF assms(1), of gm]
  show ?thesis unfolding p1 r using i pause_idle[of "pause gm p" gm] by simp
qed

subsection \<open>The body of the second loop\<close>

text \<open>
  The step for an existing page, and the step for a new one, in terms of the
  operations waited for.
\<close>

lemma add_page_update:
  assumes "existsSync (tree p) file" and "add_page gm dflt p (file, nf) = (p', e)"
  obtains (unread) x p1 where "awaited_read gm p file = (Inl x, p1)" "p' = p1" "e = Some x"
  | (unparsed) t p1 where "awaited_read gm p file = (Inr t, p1)"
      "matter_cached gm (memo p1) t = None" "p' = p1" "e = Some YAMLException"
  | (written) t p1 data content where "awaited_read gm p file = (Inr t, p1)"
      "matter_cached gm (memo p1) t = Some (data, content)"
      "awaited gm (\<lambda>s. writeFile s file
           (stringify gm content (AList.update ''versions'' (js_prop nf ''versions'') data)))
         (p1\<lparr>memo := AList.update t
            (AList.update ''versions'' (js_prop nf ''versions'') data, content) (memo p1)\<rparr>) = (p', e)"
proof -
  obtain r p1 where ar: "awaited_read gm p file = (r, p1)" by (cases "awaited_read gm p file")
  show ?thesis
  proof (cases r)
    case (Inl x)
    then show ?thesis using assms ar unread unfolding add_page_def Let_def by simp
  next
    case (Inr t)
    show ?thesis
    proof (cases "matter_cached gm (memo p1) t")
      case None
      then show ?thesis using assms ar Inr unparsed unfolding add_page_def Let_def by simp
    next
      case (Some parsed)
      obtain data content where "parsed = (data, content)" by (cases parsed)
      then show ?thesis using assms ar Inr Some written[of t p1 data content]
        unfolding add_page_def Let_def by simp
    qed
  qed
qed

lemma add_page_create:
  assumes "\<not> existsSync (tree p) file" and "add_page gm dflt p (file, nf) = (p', e)"
  obtains (stopped) p2 where
      "(\<not> existsSync (tree p) (dirname file) \<and>
          awaited gm (\<lambda>s. mkdirp s (dirname file)) p = (p', e) \<and> e \<noteq> None) \<or>
       (same_pages (tree p) (tree p2) \<and> (memo_bodies gm (memo p) \<longrightarrow> memo_bodies gm (memo p2)) \<and>
          awaited gm (\<lambda>s. writeFile s file (stringify gm [] nf)) p2 = (p', e) \<and> e \<noteq> None)"
  | (created) p2 p3 where "same_pages (tree p) (tree p2)"
      "memo_bodies gm (memo p) \<longrightarrow> memo_bodies gm (memo p2)"
      "awaited gm (\<lambda>s. writeFile s file (stringify gm [] nf)) p2 = (p3, None)"
      "p' = start_updateIndexFile gm dflt p3 file Add (js_prop nf ''versions'')" "e = None"
proof -
  define pre where "pre =
      (if \<not> existsSync (tree p) (dirname file)
       then (case awaited gm (\<lambda>s. mkdirp s (dirname file)) p of
               (p1, Some e) \<Rightarrow> (p1, Some e)
             | (p1, None) \<Rightarrow> (start_updateIndexFile gm dflt p1 (dirname file) Add JNull, None))
       else (p, None))"
  have eq: "add_page gm dflt p (file, nf) =
      (case pre of
         (p2, Some e) \<Rightarrow> (p2, Some e)
       | (p2, None) \<Rightarrow>
           (case awaited gm (\<lambda>s. writeFile s file (stringify gm [] nf)) p2 of
              (p3, Some e) \<Rightarrow> (p3, Some e)
            | (p3, None) \<Rightarrow>
                (start_updateIndexFile gm dflt p3 file Add (js_prop nf ''versions''), None)))"
    using assms(1) unfolding add_page_def Let_def pre_def fst_conv snd_conv by simp
  obtain p2 e2 where pre: "pre = (p2, e2)" by (cases pre)
  show ?thesis
  proof (cases e2)
    case (Some x)
    then have "p' = p2" "e = Some x" using assms(2) eq pre by auto
    moreover have "\<not> existsSync (tree p) (dirname file) \<and>
        awaited gm (\<lambda>s. mkdirp s (dirname file)) p = (p2, Some x)"
      using pre Some unfolding pre_def by (auto split: if_splits prod.splits option.splits)
    ultimately show ?thesis using stopped by blast
  next
    case None
    have sp: "same_pages (tree p) (tree p2)"
    proof (cases "existsSync (tree p) (dirname file)")
      case True
      then show ?thesis using pre None unfolding pre_def by (simp add: same_pages_refl)
    next
      case False
      then obtain p1 where a: "awaited gm (\<lambda>s. mkdirp s (dirname file)) p = (p1, None)"
        and p2: "p2 = start_updateIndexFile gm dflt p1 (dirname file) Add JNull"
        using pre None unfolding pre_def by (auto split: prod.splits option.splits)
      have "same_pages (tree p) (tree p1)"
        using awaited_pages[of "\<lambda>s. mkdirp s (dirname file)" gm p p1 None] same_pages_mkdirp a
        by blast
      then show ?thesis unfolding p2 by simp
    qed
    have mb: "memo_bodies gm (memo p) \<longrightarrow> memo_bodies gm (memo p2)"
    proof (cases "existsSync (tree p) (dirname file)")
      case True
      then show ?thesis using pre None unfolding pre_def by simp
    next
      case False
      then obtain p1 where a: "awaited gm (\<lambda>s. mkdirp s (dirname file)) p = (p1, None)"
        and p2: "p2 = start_updateIndexFile gm dflt p1 (dirname file) Add JNull"
        using pre None unfolding pre_def by (auto split: prod.splits option.splits)
      show ?thesis unfolding p2 using awaited_memo_bodies[OF _ a] by simp
    qed
    obtain p3 e3 where w: "awaited gm (\<lambda>s. writeFile s file (stringify gm [] nf)) p2 = (p3, e3)"
      by (cases "awaited gm (\<lambda>s. writeFile s file (stringify gm [] nf)) p2")
    show ?thesis
    proof (cases e3)
      case (Some x)
      then have "p' = p3" "e = Some x" using assms(2) eq pre None w by auto
      then show ?thesis using stopped[of p2] sp mb w Some by blast
    next
      case n3: None
      then have "p' = start_updateIndexFile gm dflt p3 file Add (js_prop nf ''versions'')" "e = None"
        using assms(2) eq pre None w by auto
      then show ?thesis using created[OF sp mb] w n3 by blast
    qed
  qed
qed

lemma add_page_frame:
  assumes "add_page gm dflt p (file, nf) = (p', e)"
  shows "same_pages_but file (tree p) (tree p')"
proof (cases "existsSync (tree p) file")
  case True
  from True assms show ?thesis
  proof (cases rule: add_page_update)
    case (unread x p1)
    then show ?thesis using awaited_read_facts(1)[OF unread(1)] same_pages_but_weaken by blast
  next
    case (unparsed t p1)
    then show ?thesis using awaited_read_facts(1)[OF unparsed(1)] same_pages_but_weaken by blast
  next
    case (written t p1 data content)
    have 1: "same_pages_but file (tree p) (tree p1)"
      using awaited_read_facts(1)[OF written(1)] same_pages_but_weaken by blast
    have 2: "same_pages_but file (tree p1) (tree p')"
      using awaited_frame[OF _ written(3)] same_pages_but_writeFile by fastforce
    show ?thesis using same_pages_but_trans[OF 1 2] .
  qed
next
  case False
  from False assms show ?thesis
  proof (cases rule: add_page_create)
    case (stopped p2)
    then show ?thesis
    proof
      assume h: "\<not> existsSync (tree p) (dirname file) \<and>
          awaited gm (\<lambda>s. mkdirp s (dirname file)) p = (p', e) \<and> e \<noteq> None"
      have "same_pages (tree p) (tree p')"
        using awaited_pages[of "\<lambda>s. mkdirp s (dirname file)" gm p p' e] same_pages_mkdirp h
        by blast
      then show ?thesis using same_pages_but_weaken by blast
    next
      assume h: "same_pages (tree p) (tree p2) \<and> (memo_bodies gm (memo p) \<longrightarrow> memo_bodies gm (memo p2)) \<and>
          awaited gm (\<lambda>s. writeFile s file (stringify gm [] nf)) p2 = (p', e) \<and> e \<noteq> None"
      have "same_pages_but file (tree p2) (tree p')"
        using awaited_frame[of "\<lambda>s. writeFile s file (stringify gm [] nf)" "file" gm p2 p' e]
          same_pages_but_writeFile h by fastforce
      then show ?thesis using h same_pages_but_weaken same_pages_but_trans by blast
    qed
  next
    case (created p2 p3)
    have "same_pages_but file (tree p2) (tree p3)"
      using awaited_frame[of "\<lambda>s. writeFile s file (stringify gm [] nf)" "file" gm p2 p3 None]
        same_pages_but_writeFile created(3) by fastforce
    then show ?thesis using created same_pages_but_weaken same_pages_but_trans by (metis start_tree)
  qed
qed

lemma add_page_memo_bodies:
  assumes mb: "memo_bodies gm (memo p)" and a: "add_page gm dflt p (file, nf) = (p', e)"
  shows "memo_bodies gm (memo p')"
proof (cases "existsSync (tree p) file")
  case True
  from True a show ?thesis
  proof (cases rule: add_page_update)
    case (unread x p1)
    then show ?thesis using awaited_read_facts(3)[OF unread(1) mb] by simp
  next
    case (unparsed t p1)
    then show ?thesis using awaited_read_facts(3)[OF unparsed(1) mb] by simp
  next
    case (written t p1 data content)
    have m1: "memo_bodies gm (memo p1)" using awaited_read_facts(3)[OF written(1) mb] .
    obtain d0 where "matter gm t = Some (d0, content)"
      using matter_cached_bodies[OF m1 written(2)] by blast
    from memo_bodies_update[OF m1 this] awaited_memo_bodies[OF _ written(3)]
    show ?thesis by simp
  qed
next
  case False
  from False a show ?thesis
  proof (cases rule: add_page_create)
    case (stopped p2)
    then show ?thesis using awaited_memo_bodies mb by blast
  next
    case (created p2 p3)
    then show ?thesis using awaited_memo_bodies[OF _ created(3)] mb by simp
  qed
qed

lemma add_page_in_place:
  assumes ni: "\<not> index_like file" and mb: "memo_bodies gm (memo p)"
    and pl: "plain_bodies gm (tree p) [file]" and v: "map_of nf ''versions'' \<noteq> None"
    and a: "add_page gm dflt p (file, nf) = (p', None)"
  shows "in_place gm (tree p') file nf"
proof (cases "existsSync (tree p) file")
  case True
  from True a show ?thesis
  proof (cases rule: add_page_update)
    case (written t p1 data content)
    let ?d = "AList.update ''versions'' (js_prop nf ''versions'') data"
    have r: "readFile (tree p) file = Inr t" using awaited_read_facts(4)[OF written(1) ni] by simp
    have m1: "memo_bodies gm (memo p1)" using awaited_read_facts(3)[OF written(1) mb] .
    obtain d0 where "matter gm t = Some (d0, content)"
      using matter_cached_bodies[OF m1 written(2)] by blast
    then have plain: "\<not> prefix ''---'' content"
      using pl r unfolding plain_bodies_def by (simp add: readFile_Inr)
    have "map_of (files (tree p')) file = Some (stringify gm content ?d)"
      using awaited_written[OF written(3) ni] .
    moreover have "map_of ?d ''versions'' = Some (js_prop nf ''versions'')" by (simp add: update_conv')
    ultimately show ?thesis using plain unfolding in_place_def by blast
  qed simp_all
next
  case False
  from False a show ?thesis
  proof (cases rule: add_page_create)
    case (stopped p2)
    then show ?thesis by blast
  next
    case (created p2 p3)
    have "map_of (files (tree p')) file = Some (stringify gm [] nf)"
      using awaited_written[OF created(3) ni] created(4) by simp
    moreover have "map_of nf ''versions'' = Some (js_prop nf ''versions'')"
      using v by (auto simp: js_prop_def)
    ultimately show ?thesis unfolding in_place_def by (metis prefix_Nil list.distinct(1) prefix_bot.extremum_uniqueI)
  qed
qed

lemma add_pages_in_place:
  "distinct (map fst es) \<Longrightarrow> \<forall>e\<in>set es. map_of (snd e) ''versions'' \<noteq> None \<Longrightarrow>
   \<forall>e\<in>set es. \<not> index_like (fst e) \<Longrightarrow> memo_bodies gm (memo p) \<Longrightarrow>
   plain_bodies gm (tree p) (map fst es) \<Longrightarrow> add_pages gm dflt p es = (p', None) \<Longrightarrow>
   (\<forall>e\<in>set es. in_place gm (tree p') (fst e) (snd e)) \<and>
   (\<forall>q. \<not> index_like q \<longrightarrow> q \<notin> fst ` set es \<longrightarrow>
        map_of (files (tree p')) q = map_of (files (tree p)) q)"
proof (induction es arbitrary: p)
  case Nil
  then show ?case by simp
next
  case (Cons e es)
  obtain f nf where e: "e = (f, nf)" by (cases e)
  obtain p1 e1 where a: "add_page gm dflt p (f, nf) = (p1, e1)" by (cases "add_page gm dflt p (f, nf)")
  have e1: "e1 = None" using Cons.prems(6) a e by (cases e1) auto
  then have rest: "add_pages gm dflt p1 es = (p', None)" using Cons.prems(6) a e by simp
  have ni: "\<not> index_like f" and v: "map_of nf ''versions'' \<noteq> None"
    using Cons.prems(2,3) e by auto
  have pl: "plain_bodies gm (tree p) [f]" using Cons.prems(5) e by (simp add: plain_bodies_def)
  have g1: "in_place gm (tree p1) f nf"
    using add_page_in_place[OF ni Cons.prems(4) pl v] a e1 by simp
  have fr1: "same_pages_but f (tree p) (tree p1)" using add_page_frame[OF a] .
  have m1: "memo_bodies gm (memo p1)" using add_page_memo_bodies[OF Cons.prems(4) a] .
  have d: "distinct (map fst es)" and fn: "f \<notin> fst ` set es" using Cons.prems(1) e by auto
  have vs: "\<forall>e\<in>set es. map_of (snd e) ''versions'' \<noteq> None"
    and nis: "\<forall>e\<in>set es. \<not> index_like (fst e)" using Cons.prems(2,3) by simp_all
  have pl1: "plain_bodies gm (tree p1) (map fst es)"
    unfolding plain_bodies_def
  proof (intro ballI allI impI)
    fix q t data content
    assume q: "q \<in> set (map fst es)" and t: "map_of (files (tree p1)) q = Some t"
      and m: "matter gm t = Some (data, content)"
    have "q \<noteq> f" "\<not> index_like q" using q fn nis by auto
    then have "map_of (files (tree p)) q = Some t" using fr1 t unfolding same_pages_but_def by simp
    then show "\<not> prefix ''---'' content"
      using Cons.prems(5) q m unfolding plain_bodies_def by auto
  qed
  note IH = Cons.IH[OF d vs nis m1 pl1 rest]
  have "map_of (files (tree p')) f = map_of (files (tree p1)) f" using IH ni fn by blast
  then have "in_place gm (tree p') f nf" using g1 by (simp add: in_place_def)
  moreover have "\<forall>q. \<not> index_like q \<longrightarrow> q \<notin> fst ` set (e # es) \<longrightarrow>
      map_of (files (tree p')) q = map_of (files (tree p)) q"
    using IH fr1 e unfolding same_pages_but_def by auto
  ultimately show ?case using IH e by simp
qed

subsection \<open>The first loop\<close>

lemma memo_updateIndexFile_bodies:
  assumes "memo_bodies gm cache"
  shows "memo_bodies gm (memo_updateIndexFile gm s cache file change)"
proof -
  have u: "\<And>t d c d'. matter_cached gm cache t = Some (d, c) \<Longrightarrow>
      memo_bodies gm (AList.update t (d', c) cache)"
    using matter_cached_bodies[OF assms] memo_bodies_update[OF assms] by blast
  show ?thesis
    unfolding memo_updateIndexFile_def using assms u
    by (auto split: sum.splits option.splits prod.splits)
qed

lemma await_updateIndexFile_facts:
  assumes "await_updateIndexFile gm dflt p file change versions = (p', e)"
  shows "shrinks (tree p) (tree p')" and "running p' = running p"
    and "memo_bodies gm (memo p) \<Longrightarrow> memo_bodies gm (memo p')"
proof -
  show "shrinks (tree p) (tree p')"
    using assms unfolding await_updateIndexFile_def
    by (auto split: sum.splits intro: shrinks_refl updateIndexFile_shrinks)
  show "running p' = running p"
    using assms unfolding await_updateIndexFile_def by (auto split: sum.splits)
  show "memo_bodies gm (memo p) \<Longrightarrow> memo_bodies gm (memo p')"
    using assms memo_updateIndexFile_bodies unfolding await_updateIndexFile_def
    by (auto split: sum.splits)
qed

lemma remove_file_facts:
  assumes "remove_file gm dflt p file = (p', e)"
  shows "shrinks (tree p) (tree p')" and "running p' = running p"
    and "memo_bodies gm (memo p) \<Longrightarrow> memo_bodies gm (memo p')"
proof -
  have "p' = p \<or> (\<exists>s1. unlink (tree p) file = Inr s1 \<and>
      (p' = p\<lparr>tree := s1\<rparr> \<or>
       await_updateIndexFile gm dflt (p\<lparr>tree := rimraf s1 (dirname file)\<rparr>) (dirname file) Remove JNull = (p', e) \<or>
       await_updateIndexFile gm dflt (p\<lparr>tree := s1\<rparr>) file Remove JNull = (p', e)))"
    using assms unfolding remove_file_def by (auto split: sum.splits if_splits)
  then consider (same) "p' = p"
    | (unlinked) s1 where "unlink (tree p) file = Inr s1" "p' = p\<lparr>tree := s1\<rparr>"
    | (collapsed) s1 where "unlink (tree p) file = Inr s1"
        "await_updateIndexFile gm dflt (p\<lparr>tree := rimraf s1 (dirname file)\<rparr>) (dirname file) Remove JNull = (p', e)"
    | (updated) s1 where "unlink (tree p) file = Inr s1"
        "await_updateIndexFile gm dflt (p\<lparr>tree := s1\<rparr>) file Remove JNull = (p', e)"
    by blast
  then have "shrinks (tree p) (tree p') \<and> running p' = running p \<and>
      (memo_bodies gm (memo p) \<longrightarrow> memo_bodies gm (memo p'))"
  proof cases
    case same
    then show ?thesis by (simp add: shrinks_refl)
  next
    case (unlinked s1)
    then show ?thesis using unlink_shrinks by simp
  next
    case (collapsed s1)
    note f = await_updateIndexFile_facts[OF collapsed(2)]
    have "shrinks (tree p) (tree p')"
      using shrinks_trans[OF shrinks_trans[OF unlink_shrinks[OF collapsed(1)] rimraf_shrinks]] f(1)
      by simp
    then show ?thesis using f(2,3) by simp
  next
    case (updated s1)
    note f = await_updateIndexFile_facts[OF updated(2)]
    have "shrinks (tree p) (tree p')"
      using shrinks_trans[OF unlink_shrinks[OF updated(1)]] f(1) by simp
    then show ?thesis using f(2,3) by simp
  qed
  then show "shrinks (tree p) (tree p')" and "running p' = running p"
    and "memo_bodies gm (memo p) \<Longrightarrow> memo_bodies gm (memo p')"
    by simp_all
qed

lemma remove_file_gone:
  assumes "remove_file gm dflt p file = (p', None)" and "\<not> index_like file"
  shows "map_of (files (tree p')) file = None"
proof -
  from assms(1) obtain s1 where s1: "unlink (tree p) file = Inr s1"
    unfolding remove_file_def by (auto split: sum.splits)
  have g1: "map_of (files s1) file = None" using map_of_unlink[OF s1] by simp
  have g2: "map_of (files (rimraf s1 (dirname file))) file = None"
    using g1 by (simp add: map_of_rimraf)
  have "shrinks s1 (tree p') \<or> shrinks (rimraf s1 (dirname file)) (tree p')"
    using assms(1) s1 await_updateIndexFile_facts(1) unfolding remove_file_def
    by (fastforce split: sum.splits if_splits)
  then show ?thesis using g1 g2 assms(2) unfolding shrinks_def by metis
qed

lemma remove_files_facts:
  "remove_files gm dflt p rm = (p', e) \<Longrightarrow>
   shrinks (tree p) (tree p') \<and> running p' = running p \<and>
   (memo_bodies gm (memo p) \<longrightarrow> memo_bodies gm (memo p'))"
proof (induction rm arbitrary: p)
  case Nil
  then show ?case by (simp add: shrinks_refl)
next
  case (Cons f0 rm)
  obtain p1 e1 where r: "remove_file gm dflt p f0 = (p1, e1)" by (cases "remove_file gm dflt p f0")
  note f = remove_file_facts[OF r]
  show ?case
  proof (cases e1)
    case None
    then have "remove_files gm dflt p1 rm = (p', e)" using Cons.prems r by simp
    from Cons.IH[OF this] show ?thesis using f shrinks_trans by metis
  next
    case (Some a)
    then have "p' = p1" using Cons.prems r by simp
    then show ?thesis using f by simp
  qed
qed

lemma remove_files_gone:
  "remove_files gm dflt p rm = (p', None) \<Longrightarrow> \<forall>q\<in>set rm. \<not> index_like q \<Longrightarrow>
   \<forall>q\<in>set rm. map_of (files (tree p')) q = None"
proof (induction rm arbitrary: p)
  case Nil
  then show ?case by simp
next
  case (Cons f0 rm)
  obtain p1 e1 where r: "remove_file gm dflt p f0 = (p1, e1)" by (cases "remove_file gm dflt p f0")
  have e1: "e1 = None" using Cons.prems(1) r by (cases e1) auto
  then have rest: "remove_files gm dflt p1 rm = (p', None)" using Cons.prems(1) r by simp
  have "map_of (files (tree p1)) f0 = None" using remove_file_gone r e1 Cons.prems(2) by auto
  moreover have "shrinks (tree p1) (tree p')" using remove_files_facts[OF rest] by blast
  ultimately have "map_of (files (tree p')) f0 = None"
    using Cons.prems(2) unfolding shrinks_def by (metis list.set_intros(1))
  moreover have "\<forall>q\<in>set rm. map_of (files (tree p')) q = None"
    using Cons.IH[OF rest] Cons.prems(2) by simp
  ultimately show ?case by simp
qed

subsection \<open>The desired pages\<close>

lemma autogen_not_index: "autogen gm s p \<Longrightarrow> \<not> index_like p"
  using index_like_includes by (auto simp: autogen_def)

lemma autogen_same_file:
  "autogen gm s p \<Longrightarrow> map_of (files s') p = map_of (files s) p \<Longrightarrow> autogen gm s' p"
  by (simp add: autogen_def)

lemma obj_literal_keys_aux:
  "fst ` set (foldl (\<lambda>o' kv. AList.update (fst kv) (snd kv) o') acc kvs) = fst ` set acc \<union> fst ` set kvs"
  by (induction kvs arbitrary: acc) (auto simp: dom_update)

lemma page_frontmatter_versions: "map_of (page_frontmatter dflt name vs) ''versions'' \<noteq> None"
proof -
  have "''versions'' \<in> fst ` set (page_frontmatter dflt name vs)"
    unfolding page_frontmatter_def obj_literal_def obj_literal_keys_aux by simp
  then show ?thesis by (simp add: map_of_eq_None_iff)
qed

lemma set_update_cases: "e \<in> set (AList.update k v al) \<Longrightarrow> e = (k, v) \<or> e \<in> set al"
  by (induction al) (auto split: if_splits)

lemma page_map_ok_update:
  "page_map_ok pm \<Longrightarrow> page_map_ok (AList.update p (page_frontmatter dflt name vs) pm)"
  unfolding page_map_ok_def
  using set_update_cases page_frontmatter_versions by (fastforce simp: distinct_update)

lemma subcategory_pages_ok:
  "page_map_ok pm \<Longrightarrow> subcategory_pages reg dflt c pm subs = Some (Inr pm') \<Longrightarrow> page_map_ok pm'"
proof (induction subs arbitrary: pm)
  case Nil
  then show ?case by simp
next
  case (Cons sv subs)
  obtain sub versions where sv: "sv = (sub, versions)" by (cases sv)
  from Cons.prems(2) obtain vs where
    "subcategory_pages reg dflt c
       (AList.update [''content'', ''rest'', c, sub @ ''.md''] (page_frontmatter dflt sub vs) pm) subs
     = Some (Inr pm')"
    unfolding sv by (auto split: option.splits sum.splits)
  then show ?case using Cons.IH page_map_ok_update[OF Cons.prems(1)] by blast
qed

lemma category_pages_ok:
  "page_map_ok pm \<Longrightarrow> category_pages reg dflt pm cat = Some (Inr pm') \<Longrightarrow> page_map_ok pm'"
proof (induction cat arbitrary: pm)
  case Nil
  then show ?case by simp
next
  case (Cons cs cat)
  obtain c subs where cs: "cs = (c, subs)" by (cases cs)
  have "\<exists>pm1. category_pages reg dflt pm1 cat = Some (Inr pm') \<and> page_map_ok pm1"
  proof (cases subs)
    case Nil
    then show ?thesis using Cons.prems cs by auto
  next
    case outer: (Cons sv more)
    obtain sub versions where sv: "sv = (sub, versions)" by (cases sv)
    show ?thesis
    proof (cases more)
      case Nil
      from Cons.prems(2) obtain vs where
        "category_pages reg dflt
           (AList.update [''content'', ''rest'', c @ ''.md''] (page_frontmatter dflt c vs) pm) cat
         = Some (Inr pm')"
        unfolding cs outer sv Nil by (auto split: option.splits sum.splits)
      then show ?thesis using page_map_ok_update[OF Cons.prems(1)] by blast
    next
      case inner: (Cons sv2 more2)
      from Cons.prems(2) obtain pm1 where
        "subcategory_pages reg dflt c pm subs = Some (Inr pm1)"
        "category_pages reg dflt pm1 cat = Some (Inr pm')"
        unfolding cs outer sv inner
        by (simp split: option.splits sum.splits prod.splits)
      then show ?thesis using subcategory_pages_ok[OF Cons.prems(1)] by blast
    qed
  qed
  then show ?case using Cons.IH by blast
qed

lemma getMarkdownFrontmatter_ok:
  "getMarkdownFrontmatter reg dflt cat = Some (Inr pm) \<Longrightarrow> page_map_ok pm"
  unfolding getMarkdownFrontmatter_def using category_pages_ok[of "[]"] by (simp add: page_map_ok_def)


subsection \<open>The scan\<close>

lemma memo_data_bodies: "memo_data gm cache \<Longrightarrow> memo_bodies gm cache"
  unfolding memo_data_def memo_bodies_def by blast

lemma memo_data_empty: "memo_data gm []"
  by (simp add: memo_data_def)

lemma matter_cached_data:
  "memo_data gm cache \<Longrightarrow> matter_cached gm cache t = Some (data', content) \<Longrightarrow>
   \<exists>data. matter gm t = Some (data, content) \<and>
     (\<forall>v. AList.update ''versions'' v data' = AList.update ''versions'' v data)"
  unfolding memo_data_def matter_cached_def by (auto split: option.splits)

lemma memo_data_update:
  "memo_data gm cache \<Longrightarrow> matter gm t = Some (data, content) \<Longrightarrow>
   \<forall>v. AList.update ''versions'' v data' = AList.update ''versions'' v data \<Longrightarrow>
   memo_data gm (AList.update t (data', content) cache)"
  unfolding memo_data_def by (auto simp: update_conv')

lemma same_but_versions:
  fixes data data' :: frontmatter
  assumes "\<forall>v. AList.update ''versions'' v data' = AList.update ''versions'' v data"
    and "k \<noteq> ''versions''"
  shows "map_of data' k = map_of data k"
proof -
  have "map_of (AList.update ''versions'' JNull data') k = map_of (AList.update ''versions'' JNull data) k"
    using assms(1) by simp
  then show ?thesis using assms(2) by (simp add: update_conv')
qed

lemma autogenerated_of_set:
  "memo_data gm cache \<Longrightarrow> autogenerated_of gm s cache xs = Inr (found, cache') \<Longrightarrow>
   memo_data gm cache' \<and>
   set found = {p \<in> set xs. \<exists>t data content. map_of (files s) p = Some t \<and>
                  matter gm t = Some (data, content) \<and>
                  map_of data ''autogenerated'' = Some (JStr ''rest'')}"
proof (induction xs arbitrary: cache found)
  case Nil
  then show ?case by simp
next
  case (Cons f0 xs)
  from Cons.prems(2) obtain t data' content found' where
    h: "readFile s f0 = Inr t" "matter_cached gm cache t = Some (data', content)"
       "autogenerated_of gm s (AList.update t (data', content) cache) xs = Inr (found', cache')"
       "found = (if map_of data' ''autogenerated'' = Some (JStr ''rest'') then f0 # found' else found')"
    by (auto split: sum.splits option.splits prod.splits)
  obtain data where d: "matter gm t = Some (data, content)"
      "\<forall>v. AList.update ''versions'' v data' = AList.update ''versions'' v data"
    using matter_cached_data[OF Cons.prems(1) h(2)] by blast
  have a: "map_of data' ''autogenerated'' = map_of data ''autogenerated''"
    using same_but_versions[OF d(2)] by simp
  have f: "map_of (files s) f0 = Some t" using h(1) by (simp add: readFile_Inr)
  note IH = Cons.IH[OF memo_data_update[OF Cons.prems(1) d] h(3)]
  show ?case using IH h(4) a d(1) f by auto
qed

lemma existing_set:
  assumes "memo_data gm cache" and "existingAutogeneratedFiles gm s cache = Inr (found, cache')"
  shows "set found = {p. autogen gm s p}" and "memo_data gm cache'"
proof -
  from assms(2) obtain all where
    w: "walk s [''content'', ''rest''] = Inr all"
    and a: "autogenerated_of gm s cache
        (filter (\<lambda>file. \<not> js_includes (path_text file) ''index.md'' \<and>
                         \<not> js_includes (path_text file) ''README.md'') all) = Inr (found, cache')"
    unfolding existingAutogeneratedFiles_def by (auto split: sum.splits)
  note r = autogenerated_of_set[OF assms(1) a]
  show "memo_data gm cache'" using r by blast
  have all: "set all = {p \<in> fst ` set (files s). prefix [''content'', ''rest''] p}"
    using w unfolding walk_def by (force split: if_splits)
  have dom: "\<And>p t. map_of (files s) p = Some t \<Longrightarrow> p \<in> fst ` set (files s)"
    by (metis map_of_eq_None_iff option.distinct(1))
  have mem: "\<And>p. p \<in> set all \<longleftrightarrow> p \<in> fst ` set (files s) \<and> prefix [''content'', ''rest''] p"
    using all by blast
  show "set found = {p. autogen gm s p}"
  proof (rule set_eqI)
    fix p
    have "p \<in> set found \<longleftrightarrow> p \<in> {p \<in> set (filter (\<lambda>file. \<not> js_includes (path_text file) ''index.md'' \<and>
                         \<not> js_includes (path_text file) ''README.md'') all).
            \<exists>t data content. map_of (files s) p = Some t \<and> matter gm t = Some (data, content) \<and>
                  map_of data ''autogenerated'' = Some (JStr ''rest'')}"
      using r by simp
    then show "p \<in> set found \<longleftrightarrow> p \<in> {p. autogen gm s p}"
      unfolding autogen_def using mem[of p] dom[of p] by auto
  qed
qed

subsection \<open>A tree that is reconciled\<close>

lemma writeFile_same:
  assumes "map_of (files s) p = Some t"
  shows "writeFile s p t = Inr s"
  using assms update_triv[OF assms] by (simp add: writeFile_def)

lemma add_page_noop:
  assumes wb: "writes_back gm" and md: "memo_data gm (memo p)" and idle: "running p = []"
    and g: "in_place gm (tree p) file nf"
  shows "\<exists>p' e. add_page gm dflt p (file, nf) = (p', e) \<and> tree p' = tree p \<and> running p' = [] \<and>
            memo_data gm (memo p')"
proof -
  from g obtain c d where
    t: "map_of (files (tree p)) file = Some (stringify gm c d)" "\<not> prefix ''---'' c"
       "map_of d ''versions'' = Some (js_prop nf ''versions'')"
    unfolding in_place_def by blast
  have ex: "existsSync (tree p) file" using t(1) by (simp add: existsSync_def)
  have rd: "readFile (tree p) file = Inr (stringify gm c d)" using t(1) by (simp add: readFile_Inr)
  obtain p' e where a: "add_page gm dflt p (file, nf) = (p', e)"
    by (cases "add_page gm dflt p (file, nf)")
  from ex a have "tree p' = tree p \<and> running p' = [] \<and> memo_data gm (memo p')"
  proof (cases rule: add_page_update)
    case (unread x p1)
    then show ?thesis using awaited_read_idle[OF idle unread(1)] md by simp
  next
    case (unparsed t p1)
    then show ?thesis using awaited_read_idle[OF idle unparsed(1)] md by simp
  next
    case (written t' p1 data content)
    note i = awaited_read_idle[OF idle written(1)]
    have t': "t' = stringify gm c d" using i rd by simp
    let ?v = "js_prop nf ''versions''"
    have m: "matter_cached gm (memo p) t' = Some (data, content)" using written(2) i by simp
    obtain d1 where d1: "matter gm t' = Some (d1, content)"
        "\<forall>v. AList.update ''versions'' v data = AList.update ''versions'' v d1"
      using matter_cached_data[OF md m] by blast
    have "stringify gm content (AList.update ''versions'' ?v d1) = stringify gm c d"
      using wb t(2,3) d1(1) unfolding writes_back_def t' by blast
    then have same: "stringify gm content (AList.update ''versions'' ?v data) = t'"
      using d1(2) t' by simp
    let ?p2 = "p1\<lparr>memo := AList.update t' (AList.update ''versions'' ?v data, content) (memo p1)\<rparr>"
    have r2: "running ?p2 = []" using i by simp
    have w: "writeFile (tree ?p2) file t' = Inr (tree p)"
      using writeFile_same[of "tree p" "file" t'] t(1) t' i by simp
    from awaited_idle[OF r2, of gm "\<lambda>s. writeFile s file (stringify gm content (AList.update ''versions'' ?v data))" p' e]
      written(3) same w
    have res: "running p' = []" "memo p' = memo ?p2" "tree p' = tree p" by simp_all
    have "\<forall>w. AList.update ''versions'' w (AList.update ''versions'' ?v data) = AList.update ''versions'' w d1"
      using d1(2) by simp
    from memo_data_update[OF md d1(1) this] have "memo_data gm (memo ?p2)" using i by simp
    then show ?thesis using res by simp
  qed
  then show ?thesis using a by blast
qed

lemma add_pages_noop:
  "writes_back gm \<Longrightarrow> memo_data gm (memo p) \<Longrightarrow> running p = [] \<Longrightarrow>
   \<forall>e\<in>set es. in_place gm (tree p) (fst e) (snd e) \<Longrightarrow>
   \<exists>p' e. add_pages gm dflt p es = (p', e) \<and> tree p' = tree p \<and> running p' = []"
proof (induction es arbitrary: p)
  case Nil
  then show ?case by simp
next
  case (Cons e0 es)
  obtain f nf where e0: "e0 = (f, nf)" by (cases e0)
  have g: "in_place gm (tree p) f nf" using Cons.prems(4) e0 by simp
  from add_page_noop[OF Cons.prems(1,2,3) g] obtain p1 e1 where
    a: "add_page gm dflt p (f, nf) = (p1, e1)" "tree p1 = tree p" "running p1 = []"
       "memo_data gm (memo p1)" by blast
  show ?case
  proof (cases e1)
    case None
    have "\<forall>e\<in>set es. in_place gm (tree p1) (fst e) (snd e)" using Cons.prems(4) a(2) by simp
    from Cons.IH[OF Cons.prems(1) a(4) a(3) this] show ?thesis using a(1,2) None e0 by auto
  next
    case (Some x)
    then show ?thesis using a e0 by simp
  qed
qed

text \<open>
  A tree in which every desired page is in place and every autogenerated page is
  desired is left as it is by the reconciliation, which then starts no index update.
\<close>

lemma reconciled_fixed:
  assumes "writes_back gm" and "reconciled gm es s"
  shows "\<exists>p2 e. reconcile gm dflt es (fresh schedule s) = (p2, e) \<and> tree p2 = s \<and> running p2 = []"
proof (cases "existingAutogeneratedFiles gm s []")
  case (Inl e)
  then show ?thesis by (simp add: reconcile_def fresh_def)
next
  case (Inr r)
  obtain E1 cache where r: "r = (E1, cache)" by (cases r)
  note ex = existing_set[OF memo_data_empty Inr[unfolded r]]
  have "set E1 \<subseteq> fst ` set es" using ex(1) assms(2) unfolding reconciled_def by blast
  then have d: "difference E1 (map fst es) = []" by (auto simp: difference_def filter_empty_conv)
  let ?p = "(fresh schedule s)\<lparr>memo := cache\<rparr>"
  have g: "\<forall>e\<in>set es. in_place gm (tree ?p) (fst e) (snd e)"
    using assms(2) unfolding reconciled_def by (simp add: fresh_def)
  have "memo_data gm (memo ?p)" "running ?p = []" using ex(2) by (simp_all add: fresh_def)
  from add_pages_noop[OF assms(1) this g, of dflt] show ?thesis
    using Inr r d by (auto simp: reconcile_def fresh_def)
qed

text \<open>
  A run that returns without an error leaves such a tree, whatever the index updates
  it started do afterwards.
\<close>

lemma reconcile_reconciles:
  assumes ok: "page_map_ok es" and nis: "\<forall>e\<in>set es. \<not> index_like (fst e)"
    and pl: "plain_bodies gm s (map fst es)"
    and r: "reconcile gm dflt es (fresh schedule s) = (p1, None)"
  shows "reconciled gm es (tree (later gm p1 steps))"
proof -
  from r obtain E0 cache pm where
    h: "existingAutogeneratedFiles gm s [] = Inr (E0, cache)"
       "remove_files gm dflt ((fresh schedule s)\<lparr>memo := cache\<rparr>) (difference E0 (map fst es)) = (pm, None)"
       "add_pages gm dflt pm es = (p1, None)"
    unfolding reconcile_def by (auto simp: fresh_def split: sum.splits prod.splits option.splits)
  note ex = existing_set[OF memo_data_empty h(1)]
  have rm: "\<forall>p\<in>set (difference E0 (map fst es)). \<not> index_like p"
    using ex(1) autogen_not_index by (auto simp: difference_def)
  have gone: "\<forall>p\<in>set (difference E0 (map fst es)). map_of (files (tree pm)) p = None"
    using remove_files_gone[OF h(2) rm] .
  have sh: "shrinks s (tree pm)" and mb: "memo_bodies gm (memo pm)"
    using remove_files_facts[OF h(2)] memo_data_bodies[OF ex(2)] by (simp_all add: fresh_def)
  have plm: "plain_bodies gm (tree pm) (map fst es)"
    unfolding plain_bodies_def
  proof (intro ballI allI impI)
    fix q t data content
    assume q: "q \<in> set (map fst es)" and t: "map_of (files (tree pm)) q = Some t"
      and m: "matter gm t = Some (data, content)"
    have "\<not> index_like q" using q nis by auto
    then have "map_of (files s) q = Some t" using sh t unfolding shrinks_def by (metis option.distinct(1))
    then show "\<not> prefix ''---'' content" using pl q m unfolding plain_bodies_def by auto
  qed
  from add_pages_in_place[OF _ _ nis mb plm h(3)] ok have
    g: "\<forall>e\<in>set es. in_place gm (tree p1) (fst e) (snd e)"
    and fr: "\<forall>q. \<not> index_like q \<longrightarrow> q \<notin> fst ` set es \<longrightarrow>
               map_of (files (tree p1)) q = map_of (files (tree pm)) q"
    unfolding page_map_ok_def by blast+
  let ?s2 = "tree (later gm p1 steps)"
  have sp: "\<forall>q. \<not> index_like q \<longrightarrow> map_of (files ?s2) q = map_of (files (tree p1)) q"
    using later_pages[of p1 gm steps] unfolding same_pages_def by simp
  have g2: "\<forall>e\<in>set es. in_place gm ?s2 (fst e) (snd e)"
    using g nis sp unfolding in_place_def by simp
  have "\<forall>p. autogen gm ?s2 p \<longrightarrow> p \<in> fst ` set es"
  proof (intro allI impI)
    fix p assume a1: "autogen gm ?s2 p"
    then have ni: "\<not> index_like p" using autogen_not_index by blast
    obtain t where t: "map_of (files ?s2) p = Some t" using a1 unfolding autogen_def by blast
    show "p \<in> fst ` set es"
    proof (rule ccontr)
      assume no: "p \<notin> fst ` set es"
      have 0: "map_of (files (tree p1)) p = Some t" using sp ni t by simp
      then have 1: "map_of (files (tree pm)) p = Some t" using fr ni no by simp
      then have 2: "map_of (files s) p = Some t"
        using sh ni unfolding shrinks_def by (metis option.distinct(1))
      then have "autogen gm s p" using autogen_same_file[OF a1, of s] t by simp
      then have "p \<in> set (difference E0 (map fst es))" using ex(1) no by (simp add: difference_def)
      then show False using gone 1 by simp
    qed
  qed
  then show ?thesis using g2 unfolding reconciled_def by blast
qed

subsection \<open>Rewriting a page\<close>


lemma newline_twice: "newline (newline str) = newline str"
  by (simp add: newline_def)


lemma writes_back_newline_matter: "writes_back newline_matter"
  unfolding writes_back_def newline_matter_def
  by (auto simp: newline_twice update_triv)

lemma pause_no_turns: "turns p = [] \<Longrightarrow> pause gm p = p"
  by (simp add: pause_def)




subsection \<open>Running the reconciliation twice\<close>

text \<open>
  Claim C7, as stated, fails when the first run stops with an error. In the tree below
  the directory \<open>old\<close> holds two autogenerated pages that the catalog no longer has and an
  index page that does not parse. The first run deletes \<open>a.md\<close> and stops at the index
  update, which the first loop waits for; the second run goes on, deletes \<open>b.md\<close>,
  removes the directory and creates the desired page.
\<close>

theorem failed_run_continues_on_second_run:
  "map_option tree_and_error
     (updateMarkdownFiles newline_matter rest_defaults example_allVersions one_file [] stale_tree) =
     Some (stale_after_first, Some YAMLException) \<and>
   map_option tree_and_error
     (updateMarkdownFiles newline_matter rest_defaults example_allVersions one_file []
        stale_after_first) =
     Some (stale_after_second, None) \<and>
   stale_after_second \<noteq> stale_after_first"
proof (intro conjI)
  show "map_option tree_and_error
     (updateMarkdownFiles newline_matter rest_defaults example_allVersions one_file [] stale_tree) =
     Some (stale_after_first, Some YAMLException)"
    by code_simp
  show "map_option tree_and_error
     (updateMarkdownFiles newline_matter rest_defaults example_allVersions one_file []
        stale_after_first) =
     Some (stale_after_second, None)"
    by code_simp
  show "stale_after_second \<noteq> stale_after_first"
    by (simp add: stale_after_second_def stale_after_first_def)
qed

text \<open>
  A desired page that is itself an index page can be overwritten by an index update that
  was started before the page was written and writes after it. Here the first run
  returns without an error; the update started for \<open>x/a.md\<close> finds no \<open>x/index.md\<close> and
  writes its placeholder once the loop has written the desired page \<open>x/index.md\<close>. The
  second run then sets the \<open>versions\<close> of that page.
\<close>

lemma started_update_overwrites_index_page:
  "map_option snd
     (updateMarkdownFiles newline_matter rest_defaults example_allVersions index_files
        [[], [], [], [], [], [1]] example_tree) = Some None \<and>
   tree (later newline_matter
     (fst (the (updateMarkdownFiles newline_matter rest_defaults example_allVersions index_files
        [[], [], [], [], [], [1]] example_tree))) [0, 0, 0, 0]) = raced_tree \<and>
   map_option tree_and_error
     (updateMarkdownFiles newline_matter rest_defaults example_allVersions index_files [] raced_tree) =
     Some (raced_again, None) \<and>
   raced_again \<noteq> raced_tree"
proof (intro conjI)
  show "map_option snd
     (updateMarkdownFiles newline_matter rest_defaults example_allVersions index_files
        [[], [], [], [], [], [1]] example_tree) = Some None"
    by code_simp
  show "tree (later newline_matter
     (fst (the (updateMarkdownFiles newline_matter rest_defaults example_allVersions index_files
        [[], [], [], [], [], [1]] example_tree))) [0, 0, 0, 0]) = raced_tree"
    by code_simp
  show "map_option tree_and_error
     (updateMarkdownFiles newline_matter rest_defaults example_allVersions index_files [] raced_tree) =
     Some (raced_again, None)"
    by code_simp
  show "raced_again \<noteq> raced_tree"
    by (simp add: raced_again_def raced_tree_def)
qed

text \<open>
  Claim C7, amended. Let a first run in a fresh process return without an error, for
  schema files none of whose desired pages is an index page, on a tree in which no
  desired page has a body that starts with \<open>---\<close>, and let \<open>gray-matter\<close> write a page it
  wrote again as it is. Take the tree at any time after the return, whatever steps the
  index updates that the run started have taken by then. A second run in a fresh
  process on that tree, under any schedule, returns with the tree unchanged and with no
  index update running.
\<close>

theorem second_run_changes_nothing:
  assumes "writes_back gm"
    and "\<forall>file\<in>set (desired_pages allVersions dflt fileList). \<not> index_like file"
    and "plain_bodies gm s (desired_pages allVersions dflt fileList)"
    and "updateMarkdownFiles gm dflt allVersions fileList schedule s = Some (p1, None)"
  shows "\<exists>p2 e. updateMarkdownFiles gm dflt allVersions fileList schedule'
                   (tree (later gm p1 steps)) = Some (p2, e) \<and>
                 tree p2 = tree (later gm p1 steps) \<and> running p2 = []"
proof -
  from assms(4) obtain es where
    es: "getMarkdownFrontmatter allVersions dflt (getDataFrontmatter fileList) = Some (Inr es)"
        "reconcile gm dflt es (fresh schedule s) = (p1, None)"
    unfolding updateMarkdownFiles_def by (auto split: option.splits sum.splits)
  have d: "desired_pages allVersions dflt fileList = map fst es"
    using es(1) by (simp add: desired_pages_def)
  have ok: "page_map_ok es" using getMarkdownFrontmatter_ok[OF es(1)] .
  have nis: "\<forall>e\<in>set es. \<not> index_like (fst e)" using assms(2) d by simp
  have pl: "plain_bodies gm s (map fst es)" using assms(3) d by simp
  have "reconciled gm es (tree (later gm p1 steps))"
    using reconcile_reconciles[OF ok nis pl es(2)] .
  from reconciled_fixed[OF assms(1) this, of dflt schedule'] show ?thesis
    using es(1) by (simp add: updateMarkdownFiles_def)
qed

theorem second_run_changes_nothing_witness:
  "writes_back newline_matter \<and>
   desired_pages example_allVersions rest_defaults example_files =
     [[''content'', ''rest'', ''actions'', ''artifacts.md''],
      [''content'', ''rest'', ''actions'', ''cache.md''],
      [''content'', ''rest'', ''apps.md'']] \<and>
   plain_bodies newline_matter mixed_tree (desired_pages example_allVersions rest_defaults example_files) \<and>
   (\<exists>p1. updateMarkdownFiles newline_matter rest_defaults example_allVersions example_files
            [[], [0], [0], [], [1, 1]] mixed_tree = Some (p1, None) \<and>
          (\<exists>p2 e. updateMarkdownFiles newline_matter rest_defaults example_allVersions example_files []
                     (tree (later newline_matter p1 [0, 0, 0, 0])) = Some (p2, e) \<and>
                   tree p2 = tree (later newline_matter p1 [0, 0, 0, 0]) \<and> running p2 = []))"
proof -
  have dp: "desired_pages example_allVersions rest_defaults example_files =
      [[''content'', ''rest'', ''actions'', ''artifacts.md''],
       [''content'', ''rest'', ''actions'', ''cache.md''],
       [''content'', ''rest'', ''apps.md'']]"
    by code_simp
  have ni: "\<forall>file\<in>set (desired_pages example_allVersions rest_defaults example_files). \<not> index_like file"
    unfolding dp by (simp add: index_like_def)
  have pl: "plain_bodies newline_matter mixed_tree
      (desired_pages example_allVersions rest_defaults example_files)"
    unfolding dp by (simp add: plain_bodies_def mixed_tree_def newline_matter_def apps_page_def)
  have "map_option snd
      (updateMarkdownFiles newline_matter rest_defaults example_allVersions example_files
         [[], [0], [0], [], [1, 1]] mixed_tree) = Some None"
    by code_simp
  then obtain p1 where r: "updateMarkdownFiles newline_matter rest_defaults example_allVersions
      example_files [[], [0], [0], [], [1, 1]] mixed_tree = Some (p1, None)"
    by (cases "updateMarkdownFiles newline_matter rest_defaults example_allVersions example_files
         [[], [0], [0], [], [1, 1]] mixed_tree") auto
  from second_run_changes_nothing[OF writes_back_newline_matter ni pl r, of "[]" "[0, 0, 0, 0]"]
  show ?thesis using writes_back_newline_matter dp pl r by blast
qed

end
